theory Spec2Isabelle
  imports Main
begin

section \<open>Data model\<close>

text \<open>
  The engine is the tournament version of the poker table (the file with the
  \<^verbatim>\<open>eliminated\<close> flag and the \<^verbatim>\<open>handNumber\<close> counter). JavaScript numbers that
  hold chips, bets, card values and hand categories are integers throughout the
  program (stacks start at 1000, the blinds are 10 and 20, every computed amount goes
  through \<^verbatim>\<open>Math.floor\<close> or \<^verbatim>\<open>parseInt\<close>), so they are modelled as \<^typ>\<open>int\<close>;
  array indices are \<^typ>\<open>nat\<close>.

  Field names carry a prefix where two interfaces of the source share a name
  (\<^verbatim>\<open>rank\<close>, \<^verbatim>\<open>name\<close>, \<^verbatim>\<open>id\<close>) or where the name is a keyword (\<^verbatim>\<open>value\<close>).
\<close>

record Card =
  c_rank :: string
  c_suit :: string
  c_value :: int

text \<open>The object returned by \<^verbatim>\<open>evaluateFiveCardHand\<close> and \<^verbatim>\<open>evaluateHand\<close>.\<close>

record HandEval =
  h_rank :: int
  h_name :: string
  h_kickers :: "int list"
  h_highCard :: int

datatype error = TypeError | NotYourTurn | NoGame | RoundNotClosed

section \<open>Hand evaluator\<close>

text \<open>
  \<^verbatim>\<open>rankCounts\<close> is a JavaScript object keyed by card value. Its keys are
  non-negative integers, which \<^verbatim>\<open>Object.keys\<close>, \<^verbatim>\<open>Object.values\<close> and
  \<^verbatim>\<open>Object.entries\<close> enumerate in ascending numeric order: an association list kept
  in ascending key order.
\<close>

fun bump :: "int \<Rightarrow> (int \<times> int) list \<Rightarrow> (int \<times> int) list" where
  "bump v [] = [(v, 1)]"
| "bump v ((k, n) # rest) =
     (if v = k then (k, n + 1) # rest
      else if v < k then (v, 1) # (k, n) # rest
      else (k, n) # bump v rest)"

definition rankCountsOf :: "Card list \<Rightarrow> (int \<times> int) list" where
  "rankCountsOf sortedCards = foldl (\<lambda>m card. bump (c_value card) m) [] sortedCards"

text \<open>
  \<^verbatim>\<open>parseInt(Object.keys(rankCounts).find(k => rankCounts[parseInt(k)] === n)!)\<close>.
  The source reaches it only after \<^verbatim>\<open>counts\<close> has shown that such a key exists; where
  none exists JavaScript yields \<^verbatim>\<open>NaN\<close>, written 0 here.
\<close>

definition keyWithCount :: "int \<Rightarrow> (int \<times> int) list \<Rightarrow> int" where
  "keyWithCount n rc = (case find (\<lambda>(k, c). c = n) rc of Some (k, c) \<Rightarrow> k | None \<Rightarrow> 0)"

text \<open>
  \<^verbatim>\<open>Math.max(...pairs)\<close> and \<^verbatim>\<open>Math.min(...pairs)\<close>; on the empty list (never
  reached: the branch has two counts of 2) JavaScript gives an infinity, written 0.
\<close>

fun maxOf :: "int list \<Rightarrow> int" where
  "maxOf [] = 0"
| "maxOf (x # xs) = fold max xs x"

fun minOf :: "int list \<Rightarrow> int" where
  "minOf [] = 0"
| "minOf (x # xs) = fold min xs x"

text \<open>\<^verbatim>\<open>xs[i] === v\<close>: an index past the end reads \<^verbatim>\<open>undefined\<close>, which equals no number.\<close>

definition atIs :: "int list \<Rightarrow> nat \<Rightarrow> int \<Rightarrow> bool" where
  "atIs xs i v = (i < length xs \<and> xs ! i = v)"

text \<open>Sorting in descending order, as \<^verbatim>\<open>sort((a, b) => b - a)\<close>; the sort is stable.\<close>

definition sortDesc :: "int list \<Rightarrow> int list" where
  "sortDesc xs = sort_key (\<lambda>n. - n) xs"

text \<open>
  The chain of tests under the comment \<^verbatim>\<open>// Hand rankings\<close> of
  \<^verbatim>\<open>evaluateFiveCardHand\<close>, over the values computed before it.
\<close>

definition handRanking ::
  "bool \<Rightarrow> bool \<Rightarrow> int \<Rightarrow> int list \<Rightarrow> int list \<Rightarrow> (int \<times> int) list \<Rightarrow> int list \<Rightarrow> int
     \<Rightarrow> HandEval" where
  "handRanking isStraight isFlush straightHigh counts pairs rankCounts kickers highCard =
     (if isStraight \<and> isFlush then
        (if straightHigh = 14
         then \<lparr>h_rank = 9, h_name = ''Royal Flush'', h_kickers = [], h_highCard = 14\<rparr>
         else \<lparr>h_rank = 8, h_name = ''Straight Flush'', h_kickers = [straightHigh],
               h_highCard = straightHigh\<rparr>)
      else if atIs counts 0 4 then
        (let quads = keyWithCount 4 rankCounts in
         \<lparr>h_rank = 7, h_name = ''Four of a Kind'', h_kickers = [quads], h_highCard = quads\<rparr>)
      else if atIs counts 0 3 \<and> atIs counts 1 2 then
        (let trips = keyWithCount 3 rankCounts; pair = keyWithCount 2 rankCounts in
         \<lparr>h_rank = 6, h_name = ''Full House'', h_kickers = [trips, pair],
          h_highCard = trips\<rparr>)
      else if isFlush then
        \<lparr>h_rank = 5, h_name = ''Flush'', h_kickers = kickers, h_highCard = highCard\<rparr>
      else if isStraight then
        \<lparr>h_rank = 4, h_name = ''Straight'', h_kickers = [straightHigh],
         h_highCard = straightHigh\<rparr>
      else if atIs counts 0 3 then
        (let trips = keyWithCount 3 rankCounts in
         \<lparr>h_rank = 3, h_name = ''Three of a Kind'', h_kickers = [trips],
          h_highCard = trips\<rparr>)
      else if atIs counts 0 2 \<and> atIs counts 1 2 then
        (let highPair = maxOf pairs; lowPair = minOf pairs in
         \<lparr>h_rank = 2, h_name = ''Two Pair'', h_kickers = [highPair, lowPair],
          h_highCard = highPair\<rparr>)
      else if atIs counts 0 2 then
        (let pair = (case pairs of [] \<Rightarrow> 0 | p # _ \<Rightarrow> p) in
         \<lparr>h_rank = 1, h_name = ''Pair'', h_kickers = [pair], h_highCard = pair\<rparr>)
      else
        \<lparr>h_rank = 0, h_name = ''High Card'', h_kickers = kickers, h_highCard = highCard\<rparr>)"

text \<open>
  \<^verbatim>\<open>evaluateFiveCardHand\<close>. On the empty array \<^verbatim>\<open>sorted[0].value\<close> raises a
  TypeError; on any other array every read below is the one JavaScript makes
  (\<^verbatim>\<open>values[0] - values[4] === 4\<close> is false when there is no fifth value, and
  \<^verbatim>\<open>pairs[0]\<close> of the Pair case exists whenever that case is reached).
\<close>

definition evaluateFiveCardHand :: "Card list \<Rightarrow> error + HandEval" where
  "evaluateFiveCardHand cards =
    (let sortedCards = sort_key (\<lambda>c. - c_value c) cards;
         rankCounts = rankCountsOf sortedCards;
         isFlush = (length (remdups (map c_suit sortedCards)) = 1);
         values = map c_value sortedCards;
         regular = (4 < length values \<and> values ! 0 - values ! 4 = 4
                      \<and> length (remdups values) = 5);
         wheel = (\<not> regular \<and> 14 \<in> set values \<and> 2 \<in> set values \<and> 3 \<in> set values
                      \<and> 4 \<in> set values \<and> 5 \<in> set values);
         isStraight = (regular \<or> wheel);
         straightHigh = (if regular then values ! 0 else if wheel then 5 else 0);
         counts = sortDesc (map snd rankCounts);
         pairs = sortDesc (map fst (filter (\<lambda>(v, count). count \<ge> 2) rankCounts))
     in case sortedCards of
          [] \<Rightarrow> Inl TypeError
        | firstCard # _ \<Rightarrow>
            Inr (handRanking isStraight isFlush straightHigh counts pairs rankCounts
                   values (c_value firstCard)))"

text \<open>
  \<^verbatim>\<open>compareHands\<close>. \<^verbatim>\<open>hand.kickers[i] || 0\<close> reads 0 past the end of the shorter
  kicker array (and leaves a kicker that is 0 as it is). The \<^verbatim>\<open>for\<close> loop runs
  \<^verbatim>\<open>i\<close> up to the longer length.
\<close>

definition kickerAt :: "int list \<Rightarrow> nat \<Rightarrow> int" where
  "kickerAt ks i = (if i < length ks then ks ! i else 0)"

function compareKickers :: "nat \<Rightarrow> int list \<Rightarrow> int list \<Rightarrow> int" where
  "compareKickers i ks1 ks2 =
     (if i < max (length ks1) (length ks2) then
        (let k1 = kickerAt ks1 i; k2 = kickerAt ks2 i in
         if k1 \<noteq> k2 then k2 - k1 else compareKickers (i + 1) ks1 ks2)
      else 0)"
  by pat_completeness auto
termination
  by (relation "measure (\<lambda>(i, ks1, ks2). max (length ks1) (length ks2) - i)") auto

declare compareKickers.simps [simp del]

definition compareHands :: "HandEval \<Rightarrow> HandEval \<Rightarrow> int" where
  "compareHands hand1 hand2 =
     (if h_rank hand1 \<noteq> h_rank hand2 then h_rank hand2 - h_rank hand1
      else compareKickers 0 (h_kickers hand1) (h_kickers hand2))"

text \<open>
  \<^verbatim>\<open>evaluateHand\<close>: the five nested loops visit the 5-element index sets
  \<^verbatim>\<open>i < j < k < l < m\<close> in lexicographic order, which is the order of \<open>combos 5\<close>.
  \<^verbatim>\<open>bestHand\<close> starts as \<^verbatim>\<open>null\<close> and is replaced by a strictly stronger
  evaluation. A card slot may hold \<^verbatim>\<open>undefined\<close> (a read past the end of the deck),
  written \<open>None\<close>: with five or more cards every slot is read, and reading the value
  of \<^verbatim>\<open>undefined\<close> raises a TypeError.
\<close>

fun combos :: "nat \<Rightarrow> 'a list \<Rightarrow> 'a list list" where
  "combos 0 xs = [[]]"
| "combos (Suc k) [] = []"
| "combos (Suc k) (x # xs) = map ((#) x) (combos k xs) @ combos (Suc k) xs"

fun bestOf :: "Card list list \<Rightarrow> HandEval option \<Rightarrow> error + HandEval option" where
  "bestOf [] bestHand = Inr bestHand"
| "bestOf (hand # rest) bestHand =
     (case evaluateFiveCardHand hand of
        Inl e \<Rightarrow> Inl e
      | Inr evaluation \<Rightarrow>
          (case bestHand of
             None \<Rightarrow> bestOf rest (Some evaluation)
           | Some b \<Rightarrow>
               if compareHands evaluation b < 0 then bestOf rest (Some evaluation)
               else bestOf rest bestHand))"

definition noHand :: HandEval where
  "noHand = \<lparr>h_rank = 0, h_name = ''High Card'', h_kickers = [], h_highCard = 0\<rparr>"

definition evaluateHand :: "Card option list \<Rightarrow> error + HandEval" where
  "evaluateHand cards =
     (if length cards < 5 then Inr noHand
      else case those cards of
             None \<Rightarrow> Inl TypeError
           | Some cs \<Rightarrow>
               (case bestOf (combos 5 cs) None of
                  Inl e \<Rightarrow> Inl e
                | Inr None \<Rightarrow> Inr noHand
                | Inr (Some b) \<Rightarrow> Inr b))"

section \<open>Table state\<close>

datatype Phase = Waiting | Preflop | Flop | Turn | River | Showdown | Tournament_complete

datatype Mode = Standard | Oracle | Silent | Ritual | Nobluff

record Player =
  p_id :: string
  p_name :: string
  chips :: int
  hand :: "Card list"
  bet :: int
  folded :: bool
  allIn :: bool
  position :: nat
  connected :: bool
  hasActed :: bool
  eliminated :: bool

text \<open>
  \<^verbatim>\<open>winner\<close> and \<^verbatim>\<open>tournamentWinner\<close> hold a reference to one of the objects of
  \<^verbatim>\<open>players\<close>: the seat's index. A community-card slot is \<open>None\<close> when it was read
  past the end of the deck (\<^verbatim>\<open>undefined\<close>).
\<close>

record GameState =
  g_id :: string
  players :: "Player list"
  communityCards :: "Card option list"
  pot :: int
  currentBet :: int
  phase :: Phase
  activePlayerIndex :: nat
  dealerIndex :: nat
  smallBlind :: int
  bigBlind :: int
  mode :: Mode
  winner :: "nat option"
  tournamentWinner :: "nat option"
  deck :: "Card list"
  deckIndex :: nat
  bettingComplete :: bool
  handNumber :: int

section \<open>Betting round: closure and turn order\<close>

definition isBettingComplete :: "GameState \<Rightarrow> bool" where
  "isBettingComplete game =
     (let activePlayers =
            filter (\<lambda>p. \<not> folded p \<and> \<not> allIn p \<and> \<not> eliminated p) (players game)
      in if length activePlayers \<le> 1 then True
         else (let allActed = list_all (\<lambda>player. hasActed player) activePlayers;
                   allMatchCurrentBet =
                     list_all (\<lambda>player. bet player = currentBet game \<or> allIn player)
                       activePlayers
               in allActed \<and> allMatchCurrentBet))"

text \<open>
  The \<^verbatim>\<open>while (attempts < game.players.length)\<close> loop of \<^verbatim>\<open>getNextActivePlayer\<close>.
  It returns the seat found (or \<open>None\<close> when the loop runs out) together with the
  value of \<^verbatim>\<open>attempts\<close> on exit. \<^verbatim>\<open>nextIndex\<close> is always a remainder modulo the
  seat count, so the read \<open>ps ! nextIndex\<close> is in range.
\<close>

function nextActiveLoop :: "Player list \<Rightarrow> nat \<Rightarrow> nat \<Rightarrow> nat option \<times> nat" where
  "nextActiveLoop ps nextIndex attempts =
     (if attempts < length ps then
        (let player = ps ! nextIndex in
         if \<not> folded player \<and> \<not> allIn player \<and> \<not> eliminated player
         then (Some nextIndex, attempts)
         else nextActiveLoop ps ((nextIndex + 1) mod length ps) (attempts + 1))
      else (None, attempts))"
  by pat_completeness auto
termination
  by (relation "measure (\<lambda>(ps, nextIndex, attempts). length ps - attempts)") auto

declare nextActiveLoop.simps [simp del]

definition getNextActivePlayer :: "GameState \<Rightarrow> nat" where
  "getNextActivePlayer game =
     (case fst (nextActiveLoop (players game)
                  ((activePlayerIndex game + 1) mod length (players game)) 0) of
        Some nextIndex \<Rightarrow> nextIndex
      | None \<Rightarrow> activePlayerIndex game)"

text \<open>The same scan over non-eliminated seats, of \<^verbatim>\<open>getNextDealerIndex\<close>.\<close>

function nextDealerLoop :: "Player list \<Rightarrow> nat \<Rightarrow> nat \<Rightarrow> nat option \<times> nat" where
  "nextDealerLoop ps nextDealer attempts =
     (if attempts < length ps then
        (if \<not> eliminated (ps ! nextDealer)
         then (Some nextDealer, attempts)
         else nextDealerLoop ps ((nextDealer + 1) mod length ps) (attempts + 1))
      else (None, attempts))"
  by pat_completeness auto
termination
  by (relation "measure (\<lambda>(ps, nextDealer, attempts). length ps - attempts)") auto

declare nextDealerLoop.simps [simp del]

definition getNextDealerIndex :: "GameState \<Rightarrow> nat" where
  "getNextDealerIndex game =
     (case fst (nextDealerLoop (players game)
                  ((dealerIndex game + 1) mod length (players game)) 0) of
        Some nextDealer \<Rightarrow> nextDealer
      | None \<Rightarrow> dealerIndex game)"

section \<open>Applying an action\<close>

text \<open>
  \<^verbatim>\<open>const newGame = { ...game }\<close> is a shallow copy: \<^verbatim>\<open>newGame.players\<close> is the
  array of \<^verbatim>\<open>game\<close>, and \<^verbatim>\<open>player\<close> (\<^verbatim>\<open>activePlayer\<close>) is the very object
  \<^verbatim>\<open>newGame.players[playerIndex]\<close>. The player list is the store and the seat index
  the address: every assignment is an update of the list, in the order of the source,
  and every read of \<^verbatim>\<open>player.chips\<close> or \<^verbatim>\<open>player.bet\<close> is a read of the list as it
  is at that point. The scalar fields of \<^verbatim>\<open>newGame\<close> (\<^verbatim>\<open>currentBet\<close>, \<^verbatim>\<open>pot\<close>, ...)
  are copies, so \<^verbatim>\<open>game.currentBet\<close> keeps its old value.
\<close>

definition modify :: "nat \<Rightarrow> (Player \<Rightarrow> Player) \<Rightarrow> Player list \<Rightarrow> Player list" where
  "modify i f ps = ps[i := f (ps ! i)]"

text \<open>
  \<^verbatim>\<open>players.forEach((p, i) => { if (i !== playerIndex && !p.folded && !p.allIn &&
  !p.eliminated) p.hasActed = false })\<close>
\<close>

definition reopenRound :: "nat \<Rightarrow> Player list \<Rightarrow> Player list" where
  "reopenRound playerIndex ps =
     map (\<lambda>(i, p). if i \<noteq> playerIndex \<and> \<not> folded p \<and> \<not> allIn p \<and> \<not> eliminated p
                    then p\<lparr>hasActed := False\<rparr> else p)
         (enumerate 0 ps)"

datatype Action = Fold | Call | Raise | Allin

definition applyFold :: "nat \<Rightarrow> GameState \<Rightarrow> GameState" where
  "applyFold playerIndex game =
     game\<lparr>players :=
       modify playerIndex (\<lambda>p. p\<lparr>hasActed := True\<rparr>)
         (modify playerIndex (\<lambda>p. p\<lparr>folded := True\<rparr>) (players game))\<rparr>"

text \<open>
  The \<^verbatim>\<open>call\<close> case. \<^verbatim>\<open>callAmount\<close> is computed from the stack and bet before the
  updates; the test \<^verbatim>\<open>callAmount === player.chips\<close> comes after
  \<^verbatim>\<open>newGame.players[playerIndex].chips -= callAmount\<close> and reads the same object, so
  it reads the stack already debited (\<open>ps3 ! playerIndex\<close>).
\<close>

definition applyCall :: "nat \<Rightarrow> GameState \<Rightarrow> GameState" where
  "applyCall playerIndex game =
     (let ps0 = players game;
          callAmount = min (currentBet game - bet (ps0 ! playerIndex)) (chips (ps0 ! playerIndex));
          ps1 = modify playerIndex (\<lambda>p. p\<lparr>chips := chips p - callAmount\<rparr>) ps0;
          ps2 = modify playerIndex (\<lambda>p. p\<lparr>bet := bet p + callAmount\<rparr>) ps1;
          ps3 = modify playerIndex (\<lambda>p. p\<lparr>hasActed := True\<rparr>) ps2;
          ps4 = (if callAmount = chips (ps3 ! playerIndex)
                 then modify playerIndex (\<lambda>p. p\<lparr>allIn := True\<rparr>) ps3 else ps3)
      in game\<lparr>players := ps4\<rparr>)"

text \<open>
  The \<^verbatim>\<open>raise\<close> case; \<^verbatim>\<open>amount && amount > game.currentBet\<close> fails for a missing
  amount and for 0. As in the call, \<^verbatim>\<open>additionalBet === player.chips\<close> reads the
  debited stack. The policy's variant wraps the total in \<^verbatim>\<open>Math.floor\<close>, the identity
  on integers.
\<close>

definition applyRaise :: "int option \<Rightarrow> nat \<Rightarrow> GameState \<Rightarrow> GameState" where
  "applyRaise amount playerIndex game =
     (case amount of
        None \<Rightarrow> game
      | Some a \<Rightarrow>
          if a \<noteq> 0 \<and> a > currentBet game then
            (let ps0 = players game;
                 totalBet = min a (chips (ps0 ! playerIndex) + bet (ps0 ! playerIndex));
                 additionalBet = totalBet - bet (ps0 ! playerIndex);
                 ps1 = modify playerIndex (\<lambda>p. p\<lparr>chips := chips p - additionalBet\<rparr>) ps0;
                 ps2 = modify playerIndex (\<lambda>p. p\<lparr>bet := totalBet\<rparr>) ps1;
                 ps3 = modify playerIndex (\<lambda>p. p\<lparr>hasActed := True\<rparr>) ps2;
                 ps4 = reopenRound playerIndex ps3;
                 ps5 = (if additionalBet = chips (ps4 ! playerIndex)
                        then modify playerIndex (\<lambda>p. p\<lparr>allIn := True\<rparr>) ps4 else ps4)
             in game\<lparr>players := ps5, currentBet := totalBet\<rparr>)
          else game)"

definition applyAllin :: "nat \<Rightarrow> GameState \<Rightarrow> GameState" where
  "applyAllin playerIndex game =
     (let ps0 = players game;
          allInAmount = chips (ps0 ! playerIndex) + bet (ps0 ! playerIndex);
          ps1 = modify playerIndex (\<lambda>p. p\<lparr>chips := 0\<rparr>) ps0;
          ps2 = modify playerIndex (\<lambda>p. p\<lparr>bet := allInAmount\<rparr>) ps1;
          ps3 = modify playerIndex (\<lambda>p. p\<lparr>allIn := True\<rparr>) ps2;
          ps4 = modify playerIndex (\<lambda>p. p\<lparr>hasActed := True\<rparr>) ps3
      in if allInAmount > currentBet game
         then game\<lparr>players := reopenRound playerIndex ps4, currentBet := allInAmount\<rparr>
         else game\<lparr>players := ps4\<rparr>)"

text \<open>\<^verbatim>\<open>Array.prototype.findIndex\<close>; \<open>None\<close> is the result -1.\<close>

fun findIndex :: "('a \<Rightarrow> bool) \<Rightarrow> 'a list \<Rightarrow> nat option" where
  "findIndex P [] = None"
| "findIndex P (x # xs) = (if P x then Some 0 else map_option Suc (findIndex P xs))"

text \<open>
  \<^verbatim>\<open>handlePlayerAction\<close>, the entry point of the human seat. \<open>Inl\<close> is a return
  before \<^verbatim>\<open>setGame\<close>: the table stays as it is. \<open>Inr\<close> is the table passed to
  \<^verbatim>\<open>setGame\<close>.
\<close>

definition handlePlayerAction ::
  "string \<Rightarrow> Action \<Rightarrow> int option \<Rightarrow> GameState \<Rightarrow> error + GameState" where
  "handlePlayerAction playerName action amount game =
     (if playerName = [] then Inl NoGame
      else case findIndex (\<lambda>p. p_name p = playerName) (players game) of
        None \<Rightarrow> Inl NotYourTurn
      | Some playerIndex \<Rightarrow>
          if playerIndex \<noteq> activePlayerIndex game then Inl NotYourTurn
          else
            (let switched =
                   (case action of
                      Fold \<Rightarrow> applyFold playerIndex game
                    | Call \<Rightarrow> applyCall playerIndex game
                    | Raise \<Rightarrow> applyRaise amount playerIndex game
                    | Allin \<Rightarrow> applyAllin playerIndex game);
                 closed = switched\<lparr>bettingComplete := isBettingComplete switched\<rparr>
             in Inr (if \<not> bettingComplete closed
                     then closed\<lparr>activePlayerIndex := getNextActivePlayer closed\<rparr>
                     else closed)))"

text \<open>
  \<^verbatim>\<open>executeAIAction\<close>. The decision of \<^verbatim>\<open>makeAIDecision\<close> (floating-point scores
  and \<^verbatim>\<open>Math.random\<close>) is an argument. The policy reads the fields of the active
  seat first, a TypeError when the index is outside the array. Its \<^verbatim>\<open>switch\<close> has
  no \<^verbatim>\<open>allin\<close> case.
\<close>

record Decision =
  d_action :: Action
  d_amount :: "int option"

definition aiSwitch :: "Decision \<Rightarrow> GameState \<Rightarrow> GameState" where
  "aiSwitch decision gameState =
     (let playerIndex = activePlayerIndex gameState in
      case d_action decision of
        Fold \<Rightarrow> applyFold playerIndex gameState
      | Call \<Rightarrow> applyCall playerIndex gameState
      | Raise \<Rightarrow> applyRaise (d_amount decision) playerIndex gameState
      | Allin \<Rightarrow> gameState)"

text \<open>The indices of the seats still in the hand: not folded and not eliminated.\<close>

definition inHand :: "Player list \<Rightarrow> nat list" where
  "inHand ps = filter (\<lambda>i. \<not> folded (ps ! i) \<and> \<not> eliminated (ps ! i)) [0..<length ps]"

definition earlyWin :: "nat \<Rightarrow> GameState \<Rightarrow> GameState" where
  "earlyWin w newGame =
     (let totalBets = sum_list (map bet (players newGame));
          winAmount = pot newGame + totalBets;
          ps1 = modify w (\<lambda>p. p\<lparr>chips := chips p + winAmount\<rparr>) (players newGame)
      in newGame\<lparr>players := map (\<lambda>p. p\<lparr>bet := 0\<rparr>) ps1,
                 winner := Some w,
                 pot := winAmount,
                 phase := Showdown,
                 bettingComplete := True,
                 currentBet := 0\<rparr>)"

definition executeAIAction :: "Decision \<Rightarrow> GameState \<Rightarrow> error + GameState" where
  "executeAIAction decision gameState =
     (if \<not> activePlayerIndex gameState < length (players gameState) then Inl TypeError
      else
        (let switched = aiSwitch decision gameState;
             newGame = switched\<lparr>bettingComplete := isBettingComplete switched\<rparr>
         in if bettingComplete newGame \<and> length (inHand (players newGame)) = 1
            then (case inHand (players newGame) of
                    w # _ \<Rightarrow> Inr (earlyWin w newGame)
                  | [] \<Rightarrow> Inr newGame)
            else if \<not> bettingComplete newGame
            then Inr (newGame\<lparr>activePlayerIndex := getNextActivePlayer newGame\<rparr>)
            else Inr newGame))"

section \<open>Phase advance and showdown\<close>

text \<open>\<^verbatim>\<open>deck[deckIndex++]\<close>: a read past the end of the deck gives \<^verbatim>\<open>undefined\<close>.\<close>

definition deckAt :: "Card list \<Rightarrow> nat \<Rightarrow> Card option" where
  "deckAt d i = (if i < length d then Some (d ! i) else None)"

text \<open>
  \<^verbatim>\<open>Array.prototype.sort\<close> with a comparator is a stable sort; insertion from the
  right, placing an element before the first one it does not come after, is one.
\<close>

fun insertBy :: "('a \<Rightarrow> 'a \<Rightarrow> int) \<Rightarrow> 'a \<Rightarrow> 'a list \<Rightarrow> 'a list" where
  "insertBy cmp x [] = [x]"
| "insertBy cmp x (y # ys) = (if cmp x y \<le> 0 then x # y # ys else y # insertBy cmp x ys)"

definition sortBy :: "('a \<Rightarrow> 'a \<Rightarrow> int) \<Rightarrow> 'a list \<Rightarrow> 'a list" where
  "sortBy cmp xs = foldr (insertBy cmp) xs []"

text \<open>
  \<^verbatim>\<open>activePlayers.map(player => ({ player, hand: evaluateHand([...player.hand,
  ...newGame.communityCards]) }))\<close>: a seat is kept by its index; the first failing
  evaluation aborts the whole call.
\<close>

fun evaluateAll :: "Player list \<Rightarrow> Card option list \<Rightarrow> nat list \<Rightarrow> error + (nat \<times> HandEval) list" where
  "evaluateAll ps community [] = Inr []"
| "evaluateAll ps community (i # rest) =
     (case evaluateHand (map Some (hand (ps ! i)) @ community) of
        Inl e \<Rightarrow> Inl e
      | Inr h \<Rightarrow>
          (case evaluateAll ps community rest of
             Inl e \<Rightarrow> Inl e
           | Inr hs \<Rightarrow> Inr ((i, h) # hs)))"

text \<open>\<^verbatim>\<open>tiedPlayers.forEach(p => p.chips += splitAmount)\<close>\<close>

definition creditAll :: "nat list \<Rightarrow> int \<Rightarrow> Player list \<Rightarrow> Player list" where
  "creditAll tied splitAmount ps =
     fold (\<lambda>i acc. modify i (\<lambda>p. p\<lparr>chips := chips p + splitAmount\<rparr>) acc) tied ps"

text \<open>
  The \<^verbatim>\<open>river\<close> case of \<^verbatim>\<open>advancePhase\<close>, entered with the live bets already moved
  into the pot. With no seat left in the hand \<^verbatim>\<open>winner\<close> is \<^verbatim>\<open>undefined\<close> and
  \<^verbatim>\<open>winner.player\<close> raises a TypeError. \<^verbatim>\<open>Math.floor(pot / n)\<close> is integer division.
\<close>

definition riverCase :: "GameState \<Rightarrow> error + GameState" where
  "riverCase newGame0 =
     (let newGame = newGame0\<lparr>phase := Showdown\<rparr>;
          activePlayers = inHand (players newGame)
      in if length activePlayers = 1 then
           (case activePlayers of
              w # _ \<Rightarrow>
                Inr (newGame\<lparr>winner := Some w,
                             players := modify w (\<lambda>p. p\<lparr>chips := chips p + pot newGame\<rparr>)
                                          (players newGame),
                             bettingComplete := True\<rparr>)
            | [] \<Rightarrow> Inl TypeError)
         else
           (case evaluateAll (players newGame) (communityCards newGame) activePlayers of
              Inl e \<Rightarrow> Inl e
            | Inr evaluated \<Rightarrow>
                (case sortBy (\<lambda>a b. compareHands (snd a) (snd b)) evaluated of
                   [] \<Rightarrow> Inl TypeError
                 | win # others \<Rightarrow>
                     if (case others of [] \<Rightarrow> False
                         | second # _ \<Rightarrow> compareHands (snd win) (snd second) = 0)
                     then
                       (let tiedPlayers =
                              map fst (filter (\<lambda>h. compareHands (snd h) (snd win) = 0)
                                         (win # others));
                            splitAmount = pot newGame div int (length tiedPlayers)
                        in Inr (newGame\<lparr>players := creditAll tiedPlayers splitAmount
                                                       (players newGame),
                                        pot := 0,
                                        winner := None,
                                        bettingComplete := True\<rparr>))
                     else
                       Inr (newGame\<lparr>winner := Some (fst win),
                                    players := modify (fst win)
                                                 (\<lambda>p. p\<lparr>chips := chips p + pot newGame\<rparr>)
                                                 (players newGame),
                                    bettingComplete := True\<rparr>))))"

text \<open>
  The seat that opens the next round:
  \<^verbatim>\<open>activePlayers[(dealerPosition + 1) % activePlayers.length]?.index ||
  activePlayers[0].index\<close> over the non-eliminated seats. \<^verbatim>\<open>dealerPosition\<close> is -1
  when the dealer is not among them; with no seat at all the second operand raises a
  TypeError; an index of 0 is falsy and gives way to the second operand.
\<close>

definition firstToAct :: "GameState \<Rightarrow> error + nat" where
  "firstToAct newGame =
     (let activePlayers =
            filter (\<lambda>i. \<not> eliminated (players newGame ! i)) [0..<length (players newGame)]
      in case activePlayers of
           [] \<Rightarrow> Inl TypeError
         | a0 # _ \<Rightarrow>
             (let next = (case findIndex (\<lambda>i. i = dealerIndex newGame) activePlayers of
                            None \<Rightarrow> 0
                          | Some dealerPosition \<Rightarrow> dealerPosition + 1);
                  index = activePlayers ! (next mod length activePlayers)
              in Inr (if index \<noteq> 0 then index else a0)))"

text \<open>
  \<^verbatim>\<open>while (players[activePlayerIndex].folded || players[activePlayerIndex].eliminated)
  activePlayerIndex = getNextActivePlayer(newGame)\<close> has no bound of its own: \<open>None\<close>
  is the loop that never ends.
\<close>

partial_function (option) skipFolded :: "GameState \<Rightarrow> (error + GameState) option" where
  "skipFolded newGame =
     (if \<not> activePlayerIndex newGame < length (players newGame) then Some (Inl TypeError)
      else if folded (players newGame ! activePlayerIndex newGame)
              \<or> eliminated (players newGame ! activePlayerIndex newGame)
      then skipFolded (newGame\<lparr>activePlayerIndex := getNextActivePlayer newGame\<rparr>)
      else Some (Inr newGame))"

text \<open>
  The bets are moved into the pot and every seat's \<^verbatim>\<open>bet\<close> and \<^verbatim>\<open>hasActed\<close> are
  reset, before the \<^verbatim>\<open>switch\<close> on the phase.
\<close>

definition collectBets :: "GameState \<Rightarrow> GameState" where
  "collectBets game =
     (let totalBets = sum_list (map bet (players game))
      in game\<lparr>pot := pot game + totalBets,
               players := map (\<lambda>player. player\<lparr>bet := 0, hasActed := False\<rparr>) (players game),
               currentBet := 0,
               bettingComplete := False\<rparr>)"

definition phaseSwitch :: "Phase \<Rightarrow> GameState \<Rightarrow> error + GameState" where
  "phaseSwitch ph newGame =
     (case ph of
        Preflop \<Rightarrow>
          Inr (newGame\<lparr>communityCards := [deckAt (deck newGame) (deckIndex newGame),
                                            deckAt (deck newGame) (deckIndex newGame + 1),
                                            deckAt (deck newGame) (deckIndex newGame + 2)],
                       deckIndex := deckIndex newGame + 3,
                       phase := Flop\<rparr>)
      | Flop \<Rightarrow>
          Inr (newGame\<lparr>communityCards := communityCards newGame
                                            @ [deckAt (deck newGame) (deckIndex newGame)],
                       deckIndex := deckIndex newGame + 1,
                       phase := Turn\<rparr>)
      | Turn \<Rightarrow>
          Inr (newGame\<lparr>communityCards := communityCards newGame
                                            @ [deckAt (deck newGame) (deckIndex newGame)],
                       deckIndex := deckIndex newGame + 1,
                       phase := River\<rparr>)
      | River \<Rightarrow> riverCase newGame
      | _ \<Rightarrow> Inr newGame)"

text \<open>
  \<^verbatim>\<open>advancePhase\<close>. \<open>Some (Inl RoundNotClosed)\<close> is the early return, which leaves
  the table as it is; \<open>Some (Inl TypeError)\<close> an exception; \<open>None\<close> the call that
  does not return.
\<close>

definition advancePhase :: "GameState \<Rightarrow> (error + GameState) option" where
  "advancePhase game =
     (if \<not> bettingComplete game \<and> phase game \<noteq> Showdown then Some (Inl RoundNotClosed)
      else case phaseSwitch (phase game) (collectBets game) of
             Inl e \<Rightarrow> Some (Inl e)
           | Inr newGame \<Rightarrow>
               if phase newGame \<noteq> Showdown then
                 (case firstToAct newGame of
                    Inl e \<Rightarrow> Some (Inl e)
                  | Inr index \<Rightarrow> skipFolded (newGame\<lparr>activePlayerIndex := index\<rparr>))
               else Some (Inr newGame))"

section \<open>Quantities the properties speak of\<close>

text \<open>The chips on the table: every seat's stack and live bet, and the pot.\<close>

definition tableTotal :: "GameState \<Rightarrow> int" where
  "tableTotal game = sum_list (map (\<lambda>p. chips p + bet p) (players game)) + pot game"

text \<open>The chips in the seats' stacks alone.\<close>

definition stackTotal :: "GameState \<Rightarrow> int" where
  "stackTotal game = sum_list (map chips (players game))"

text \<open>
  The contenders of the round-closure predicate, in the specification's words: the
  seats that are not folded, not all-in and not eliminated.
\<close>

definition contenders :: "GameState \<Rightarrow> Player list" where
  "contenders game =
     filter (\<lambda>p. \<not> folded p \<and> \<not> allIn p \<and> \<not> eliminated p) (players game)"

text \<open>
  The specification's order on kicker sequences: lexicographic from position \<open>i\<close> on,
  a missing entry counting as 0; \<open>lexBefore i a b\<close> holds when \<open>a\<close> is the greater.
\<close>

definition lexBefore :: "nat \<Rightarrow> int list \<Rightarrow> int list \<Rightarrow> bool" where
  "lexBefore i a b =
     (\<exists>j\<ge>i. (\<forall>l. i \<le> l \<and> l < j \<longrightarrow> kickerAt a l = kickerAt b l)
              \<and> kickerAt b j < kickerAt a j)"

text \<open>A seat that qualifies for the turn: not folded, not all-in, not eliminated.\<close>

definition canAct :: "Player \<Rightarrow> bool" where
  "canAct p = (\<not> folded p \<and> \<not> allIn p \<and> \<not> eliminated p)"

text \<open>
  The raise contract in the specification's words, between the table \<open>g\<close> before a
  raise to \<open>amount\<close> by seat \<open>i\<close> and the table \<open>g'\<close> after it: the seat's bet becomes
  \<open>min amount (chips + bet)\<close>, the difference leaves its stack, the current bet becomes
  that total, the seat has acted, and every other seat is as before except that
  \<^verbatim>\<open>hasActed\<close> is cleared where the seat is not folded, not all-in and not eliminated.
\<close>

definition raiseContract :: "int \<Rightarrow> nat \<Rightarrow> GameState \<Rightarrow> GameState \<Rightarrow> bool" where
  "raiseContract amount i g g' =
     (let p = players g ! i; totalBet = min amount (chips p + bet p) in
      length (players g') = length (players g)
      \<and> bet (players g' ! i) = totalBet
      \<and> chips (players g' ! i) = chips p - (totalBet - bet p)
      \<and> currentBet g' = totalBet
      \<and> hasActed (players g' ! i)
      \<and> (\<forall>j<length (players g). j \<noteq> i \<longrightarrow>
            players g' ! j =
              (if canAct (players g ! j) then (players g ! j)\<lparr>hasActed := False\<rparr>
               else players g ! j)))"

text \<open>
  The contenders tied for the best hand, in the specification's words: among the
  evaluated seats, those whose hand is at least as strong as every evaluated hand.
\<close>

definition bestHands :: "(nat \<times> HandEval) list \<Rightarrow> (nat \<times> HandEval) list" where
  "bestHands evs =
     filter (\<lambda>a. list_all (\<lambda>b. compareHands (snd a) (snd b) \<le> 0) evs) evs"

text \<open>
  The pair values of a hand, in the specification's words: the card values that at
  least two of the cards hold. The high pair is the greatest of them, the low pair
  the least.
\<close>

definition heldTwice :: "Card list \<Rightarrow> int set" where
  "heldTwice cards =
     set (filter (\<lambda>v. 2 \<le> count_list (map c_value cards) v) (map c_value cards))"

section \<open>Example hands and tables\<close>

definition card :: "string \<Rightarrow> string \<Rightarrow> int \<Rightarrow> Card" where
  "card r s v = \<lparr>c_rank = r, c_suit = s, c_value = v\<rparr>"

text \<open>King of clubs, king of diamonds, queen of clubs, queen of diamonds, two of hearts.\<close>

definition handKKQQ2 :: "Card list" where
  "handKKQQ2 = [card ''K'' ''clubs'' 13, card ''K'' ''diamonds'' 13, card ''Q'' ''clubs'' 12,
                card ''Q'' ''diamonds'' 12, card ''2'' ''hearts'' 2]"

text \<open>King of clubs, king of diamonds, jack of clubs, jack of diamonds, ace of hearts.\<close>

definition handKKJJA :: "Card list" where
  "handKKJJA = [card ''K'' ''clubs'' 13, card ''K'' ''diamonds'' 13, card ''J'' ''clubs'' 11,
                card ''J'' ''diamonds'' 11, card ''A'' ''hearts'' 14]"

definition twoPairKQ :: HandEval where
  "twoPairKQ = \<lparr>h_rank = 2, h_name = ''Two Pair'', h_kickers = [13, 12], h_highCard = 13\<rparr>"

definition twoPairKJ :: HandEval where
  "twoPairKJ = \<lparr>h_rank = 2, h_name = ''Two Pair'', h_kickers = [13, 11], h_highCard = 13\<rparr>"


text \<open>A seat that has not acted, with the given name, stack and live bet.\<close>

definition seat :: "string \<Rightarrow> int \<Rightarrow> int \<Rightarrow> Player" where
  "seat n c b =
     \<lparr>p_id = ''player'', p_name = n, chips = c, hand = [], bet = b, folded = False,
      allIn = False, position = 0, connected = True, hasActed = False, eliminated = False\<rparr>"

text \<open>A table in the given phase with blinds 10 and 20, dealer at seat 0.\<close>

definition tableOf :: "Player list \<Rightarrow> int \<Rightarrow> int \<Rightarrow> Phase \<Rightarrow> nat \<Rightarrow> GameState" where
  "tableOf ps p cb ph active =
     \<lparr>g_id = ''game'', players = ps, communityCards = [], pot = p, currentBet = cb,
      phase = ph, activePlayerIndex = active, dealerIndex = 0, smallBlind = 10,
      bigBlind = 20, mode = Standard, winner = None, tournamentWinner = None, deck = [],
      deckIndex = 0, bettingComplete = False, handNumber = 1\<rparr>"

text \<open>
  The scenario of the specification: six seats with 1000 chips each, blinds 10 and 20
  posted by seats 2 and 3 (the big blind counts as having acted), seat 4 to act.
\<close>

definition sixHanded :: GameState where
  "sixHanded =
     tableOf [seat ''s0'' 1000 0, seat ''s1'' 1000 0, seat ''s2'' 990 10,
              (seat ''s3'' 980 20)\<lparr>hasActed := True\<rparr>, seat ''s4'' 1000 0,
              seat ''s5'' 1000 0] 0 20 Preflop 4"

text \<open>A table of three seats on which every seat is eliminated.\<close>

definition allOut :: GameState where
  "allOut =
     tableOf [(seat ''s0'' 0 0)\<lparr>folded := True, eliminated := True\<rparr>,
              (seat ''s1'' 0 0)\<lparr>folded := True, eliminated := True\<rparr>,
              (seat ''s2'' 0 0)\<lparr>folded := True, eliminated := True\<rparr>] 0 0 Preflop 1"

text \<open>
  Heads-up before the flop: the hero (seat 0, to act) has 20 chips left and faces the
  big blind of 20 posted by the villain.
\<close>

definition shortCall :: GameState where
  "shortCall =
     tableOf [seat ''hero'' 20 0, (seat ''villain'' 980 20)\<lparr>hasActed := True\<rparr>]
       0 20 Preflop 0"

text \<open>
  Heads-up before the flop: the hero (seat 0, to act) has posted 10, the villain 20.
\<close>

definition headsUp :: GameState where
  "headsUp =
     tableOf [seat ''hero'' 990 10, (seat ''villain'' 980 20)\<lparr>hasActed := True\<rparr>]
       0 20 Preflop 0"



text \<open>
  A river on which both seats play the board, a royal flush in spades: the hero holds
  the two and three of clubs, the villain the four and five of hearts; 25 chips are
  in the pot and the last round is closed.
\<close>

definition riverTie :: GameState where
  "riverTie =
     (tableOf [(seat ''hero'' 980 0)\<lparr>hand := [card ''2'' ''clubs'' 2, card ''3'' ''clubs'' 3],
                                       hasActed := True\<rparr>,
               (seat ''villain'' 980 0)\<lparr>hand := [card ''4'' ''hearts'' 4, card ''5'' ''hearts'' 5],
                                          hasActed := True\<rparr>] 25 0 River 1)
       \<lparr>bettingComplete := True,
        communityCards := [Some (card ''A'' ''spades'' 14), Some (card ''K'' ''spades'' 13),
                           Some (card ''Q'' ''spades'' 12), Some (card ''J'' ''spades'' 11),
                           Some (card ''T'' ''spades'' 10)]\<rparr>"

definition royalFlush :: HandEval where
  "royalFlush = \<lparr>h_rank = 9, h_name = ''Royal Flush'', h_kickers = [], h_highCard = 14\<rparr>"

section \<open>The comparator is a total preorder\<close>

lemma kickerAt_past: "length ks \<le> i \<Longrightarrow> kickerAt ks i = 0"
  by (simp add: kickerAt_def)

lemma compareKickers_neg: "compareKickers i b a = - compareKickers i a b"
proof (induction i a b rule: compareKickers.induct)
  case (1 i ks1 ks2)
  show ?case
  proof (cases "i < max (length ks1) (length ks2)")
    case True
    then have t: "i < max (length ks2) (length ks1)" by (simp add: max.commute)
    show ?thesis
    proof (cases "kickerAt ks1 i = kickerAt ks2 i")
      case True
      with 1 \<open>i < max (length ks1) (length ks2)\<close> t show ?thesis
        by (simp add: compareKickers.simps [of i ks1 ks2] compareKickers.simps [of i ks2 ks1])
    next
      case False
      with \<open>i < max (length ks1) (length ks2)\<close> t show ?thesis
        by (simp add: compareKickers.simps [of i ks1 ks2] compareKickers.simps [of i ks2 ks1] Let_def)
    qed
  next
    case False
    then have "\<not> i < max (length ks2) (length ks1)" by (simp add: max.commute)
    with False show ?thesis
      by (simp add: compareKickers.simps [of i ks1 ks2] compareKickers.simps [of i ks2 ks1])
  qed
qed

lemma compareKickers_zero:
  "(compareKickers i a b = 0) = (\<forall>j\<ge>i. kickerAt a j = kickerAt b j)"
proof (induction i a b rule: compareKickers.induct)
  case (1 i ks1 ks2)
  show ?case
  proof (cases "i < max (length ks1) (length ks2)")
    case False
    then have "length ks1 \<le> i" "length ks2 \<le> i" by simp_all
    then have "\<forall>j\<ge>i. kickerAt ks1 j = 0 \<and> kickerAt ks2 j = 0"
      by (auto intro: kickerAt_past)
    with False show ?thesis
      by (simp add: compareKickers.simps [of i ks1 ks2])
  next
    case True
    show ?thesis
    proof (cases "kickerAt ks1 i = kickerAt ks2 i")
      case False
      with True show ?thesis
        by (auto simp: compareKickers.simps [of i ks1 ks2] Let_def)
    next
      case eq: True
      have "(\<forall>j\<ge>i. kickerAt ks1 j = kickerAt ks2 j) = (\<forall>j\<ge>i + 1. kickerAt ks1 j = kickerAt ks2 j)"
      proof
        assume "\<forall>j\<ge>i. kickerAt ks1 j = kickerAt ks2 j"
        then show "\<forall>j\<ge>i + 1. kickerAt ks1 j = kickerAt ks2 j" by simp
      next
        assume h: "\<forall>j\<ge>i + 1. kickerAt ks1 j = kickerAt ks2 j"
        show "\<forall>j\<ge>i. kickerAt ks1 j = kickerAt ks2 j"
        proof (intro allI impI)
          fix j assume "i \<le> j"
          then have "j = i \<or> i + 1 \<le> j" by arith
          with h eq show "kickerAt ks1 j = kickerAt ks2 j" by auto
        qed
      qed
      with 1 True eq show ?thesis
        by (simp add: compareKickers.simps [of i ks1 ks2] Let_def)
    qed
  qed
qed

lemma compareKickers_less:
  "(compareKickers i a b < 0) = lexBefore i a b"
proof (induction i a b rule: compareKickers.induct)
  case (1 i ks1 ks2)
  show ?case
  proof (cases "i < max (length ks1) (length ks2)")
    case False
    then have "length ks1 \<le> i" "length ks2 \<le> i" by simp_all
    then have "\<forall>j\<ge>i. kickerAt ks1 j = 0 \<and> kickerAt ks2 j = 0"
      by (auto intro: kickerAt_past)
    then have "\<not> lexBefore i ks1 ks2" by (auto simp: lexBefore_def)
    with False show ?thesis
      by (simp add: compareKickers.simps [of i ks1 ks2])
  next
    case True
    show ?thesis
    proof (cases "kickerAt ks1 i = kickerAt ks2 i")
      case False
      have "lexBefore i ks1 ks2 = (kickerAt ks2 i < kickerAt ks1 i)"
      proof
        assume "lexBefore i ks1 ks2"
        then obtain j where j: "j \<ge> i" "\<forall>l. i \<le> l \<and> l < j \<longrightarrow> kickerAt ks1 l = kickerAt ks2 l"
          "kickerAt ks2 j < kickerAt ks1 j" by (auto simp: lexBefore_def)
        have "j = i"
        proof (rule ccontr)
          assume "j \<noteq> i"
          with j have "i < j" by simp
          with j False show False by simp
        qed
        with j show "kickerAt ks2 i < kickerAt ks1 i" by simp
      next
        assume "kickerAt ks2 i < kickerAt ks1 i"
        then show "lexBefore i ks1 ks2" unfolding lexBefore_def
          by (intro exI [of _ i]) auto
      qed
      with True False show ?thesis
        by (auto simp: compareKickers.simps [of i ks1 ks2] Let_def)
    next
      case eq: True
      have "lexBefore i ks1 ks2 = lexBefore (i + 1) ks1 ks2"
      proof
        assume "lexBefore i ks1 ks2"
        then obtain j where j: "j \<ge> i" "\<forall>l. i \<le> l \<and> l < j \<longrightarrow> kickerAt ks1 l = kickerAt ks2 l"
          "kickerAt ks2 j < kickerAt ks1 j" by (auto simp: lexBefore_def)
        with eq have "j \<noteq> i" by auto
        with j have "j \<ge> i + 1" by simp
        with j show "lexBefore (i + 1) ks1 ks2" unfolding lexBefore_def
          by (intro exI [of _ j]) auto
      next
        assume "lexBefore (i + 1) ks1 ks2"
        then obtain j where j: "j \<ge> i + 1" "\<forall>l. i + 1 \<le> l \<and> l < j \<longrightarrow> kickerAt ks1 l = kickerAt ks2 l"
          "kickerAt ks2 j < kickerAt ks1 j" by (auto simp: lexBefore_def)
        have "\<forall>l. i \<le> l \<and> l < j \<longrightarrow> kickerAt ks1 l = kickerAt ks2 l"
        proof (intro allI impI)
          fix l assume l: "i \<le> l \<and> l < j"
          show "kickerAt ks1 l = kickerAt ks2 l"
          proof (cases "l = i")
            case True with eq show ?thesis by simp
          next
            case False with l j show ?thesis by simp
          qed
        qed
        with j show "lexBefore i ks1 ks2" unfolding lexBefore_def
          by (intro exI [of _ j]) auto
      qed
      with 1 True eq show ?thesis
        by (simp add: compareKickers.simps [of i ks1 ks2] Let_def)
    qed
  qed
qed

lemma lexBefore_trans:
  assumes "lexBefore i a b" "lexBefore i b c"
  shows "lexBefore i a c"
proof -
  from assms(1) obtain j where j: "j \<ge> i" "\<forall>l. i \<le> l \<and> l < j \<longrightarrow> kickerAt a l = kickerAt b l"
    "kickerAt b j < kickerAt a j" by (auto simp: lexBefore_def)
  from assms(2) obtain k where k: "k \<ge> i" "\<forall>l. i \<le> l \<and> l < k \<longrightarrow> kickerAt b l = kickerAt c l"
    "kickerAt c k < kickerAt b k" by (auto simp: lexBefore_def)
  let ?m = "min j k"
  have m: "?m \<ge> i" using j k by simp
  have pre: "\<forall>l. i \<le> l \<and> l < ?m \<longrightarrow> kickerAt a l = kickerAt c l"
    using j k by simp
  have "kickerAt c ?m < kickerAt a ?m"
  proof (cases "j < k")
    case True
    then have "kickerAt b j = kickerAt c j" using j k by simp
    with True j show ?thesis by (simp add: min_def)
  next
    case False
    show ?thesis
    proof (cases "j = k")
      case True with j k show ?thesis by simp
    next
      case nk: False
      with False have "k < j" by simp
      then have "kickerAt a k = kickerAt b k" using j k by simp
      with \<open>k < j\<close> k show ?thesis by (simp add: min_def)
    qed
  qed
  with m pre show ?thesis unfolding lexBefore_def by blast
qed

lemma lexBefore_eq_left:
  assumes "\<forall>j\<ge>i. kickerAt a j = kickerAt b j"
  shows "lexBefore i a c = lexBefore i b c"
  using assms unfolding lexBefore_def by (metis (no_types, lifting))

lemma lexBefore_eq_right:
  assumes "\<forall>j\<ge>i. kickerAt b j = kickerAt c j"
  shows "lexBefore i a b = lexBefore i a c"
  using assms unfolding lexBefore_def by (metis (no_types, lifting))


lemma compareHands_refl: "compareHands h h = 0"
  by (simp add: compareHands_def compareKickers_zero)

lemma compareHands_neg: "compareHands b a = - compareHands a b"
  by (simp add: compareHands_def compareKickers_neg [of 0 "h_kickers b" "h_kickers a"])

lemma compareHands_less:
  "(compareHands a b < 0) =
     (h_rank b < h_rank a \<or> h_rank a = h_rank b \<and> lexBefore 0 (h_kickers a) (h_kickers b))"
  by (auto simp: compareHands_def compareKickers_less)

lemma compareHands_zero:
  "(compareHands a b = 0) =
     (h_rank a = h_rank b \<and> (\<forall>j. kickerAt (h_kickers a) j = kickerAt (h_kickers b) j))"
  by (auto simp: compareHands_def compareKickers_zero)

lemma compareHands_less_trans:
  assumes "compareHands a b < 0" "compareHands b c < 0"
  shows "compareHands a c < 0"
proof -
  from assms have ab: "h_rank b < h_rank a \<or> h_rank a = h_rank b \<and> lexBefore 0 (h_kickers a) (h_kickers b)"
    and bc: "h_rank c < h_rank b \<or> h_rank b = h_rank c \<and> lexBefore 0 (h_kickers b) (h_kickers c)"
    by (simp_all add: compareHands_less)
  then have "h_rank c < h_rank a \<or> h_rank a = h_rank c \<and> lexBefore 0 (h_kickers a) (h_kickers c)"
    using lexBefore_trans [of 0 "h_kickers a" "h_kickers b" "h_kickers c"] by auto
  then show ?thesis by (simp add: compareHands_less)
qed

lemma compareHands_zero_cong:
  assumes "compareHands a b = 0"
  shows "(compareHands a c < 0) = (compareHands b c < 0)"
    and "(compareHands c a < 0) = (compareHands c b < 0)"
    and "(compareHands a c = 0) = (compareHands b c = 0)"
proof -
  from assms have r: "h_rank a = h_rank b"
    and k: "\<forall>j\<ge>0. kickerAt (h_kickers a) j = kickerAt (h_kickers b) j"
    by (simp_all add: compareHands_zero)
  show "(compareHands a c < 0) = (compareHands b c < 0)"
    using r lexBefore_eq_left [OF k, of "h_kickers c"] by (simp add: compareHands_less)
  show "(compareHands c a < 0) = (compareHands c b < 0)"
    using r lexBefore_eq_right [OF k, of "h_kickers c"] by (simp add: compareHands_less)
  show "(compareHands a c = 0) = (compareHands b c = 0)"
    using r k by (simp add: compareHands_zero)
qed

lemma compareHands_le_trans:
  assumes "compareHands a b \<le> 0" "compareHands b c \<le> 0"
  shows "compareHands a c \<le> 0"
proof (cases "compareHands a b = 0")
  case True
  from compareHands_zero_cong [OF True, of c] assms(2) show ?thesis
    by (cases "compareHands b c = 0") auto
next
  case ab: False
  with assms(1) have lt: "compareHands a b < 0" by simp
  show ?thesis
  proof (cases "compareHands b c = 0")
    case True
    from compareHands_zero_cong(2) [OF True, of a] lt
    have "compareHands a c < 0" by simp
    then show ?thesis by simp
  next
    case False
    with assms(2) have "compareHands b c < 0" by simp
    with lt have "compareHands a c < 0" by (rule compareHands_less_trans)
    then show ?thesis by simp
  qed
qed



section \<open>Rank counts\<close>

lemma bump_keys: "fst ` set (bump v m) = insert v (fst ` set m)"
  by (induction v m rule: bump.induct) (auto simp: image_iff)

lemma bump_sorted:
  "sorted_wrt (<) (map fst m) \<Longrightarrow> sorted_wrt (<) (map fst (bump v m))"
proof (induction m)
  case Nil
  then show ?case by simp
next
  case (Cons kn rest)
  obtain k n where kn: "kn = (k, n)" by (cases kn)
  show ?case
  proof (cases "v = k")
    case True
    with Cons.prems kn show ?thesis by simp
  next
    case ne: False
    show ?thesis
    proof (cases "v < k")
      case True
      with Cons.prems kn ne show ?thesis by auto
    next
      case False
      with ne have "k < v" by simp
      moreover from Cons kn have "sorted_wrt (<) (map fst (bump v rest))" by simp
      moreover from Cons.prems kn have "\<forall>x\<in>fst ` set rest. k < x" by simp
      ultimately show ?thesis using kn ne False bump_keys [of v rest] by auto
    qed
  qed
qed

lemma bump_map_of:
  "sorted_wrt (<) (map fst m) \<Longrightarrow>
     map_of (bump v m) = (map_of m)(v \<mapsto> (case map_of m v of None \<Rightarrow> 1 | Some n \<Rightarrow> n + 1))"
proof (induction m)
  case Nil
  then show ?case by simp
next
  case (Cons kn rest)
  obtain k n where kn: "kn = (k, n)" by (cases kn)
  show ?case
  proof (cases "v = k")
    case True
    with kn show ?thesis by (simp add: fun_eq_iff)
  next
    case ne: False
    show ?thesis
    proof (cases "v < k")
      case True
      from Cons.prems kn have "\<forall>x\<in>fst ` set rest. k < x" by simp
      with True have "v \<notin> fst ` set rest" by auto
      then have "map_of rest v = None" by (simp add: map_of_eq_None_iff)
      with True ne kn show ?thesis by (auto simp: fun_eq_iff)
    next
      case False
      from Cons.prems kn have "sorted_wrt (<) (map fst rest)" by simp
      from Cons.IH [OF this] have "map_of (bump v rest)
          = (map_of rest)(v \<mapsto> (case map_of rest v of None \<Rightarrow> 1 | Some n \<Rightarrow> n + 1))" .
      with False ne kn show ?thesis by (auto simp: fun_eq_iff)
    qed
  qed
qed

lemma rankCounts_fold:
  assumes "sorted_wrt (<) (map fst m)"
    and "\<forall>v. map_of m v = (if count_list xs v = 0 then None else Some (int (count_list xs v)))"
  shows "sorted_wrt (<) (map fst (foldl (\<lambda>m c. bump (c_value c) m) m cs))
         \<and> (\<forall>v. map_of (foldl (\<lambda>m c. bump (c_value c) m) m cs) v
                = (if count_list (xs @ map c_value cs) v = 0 then None
                   else Some (int (count_list (xs @ map c_value cs) v))))"
  using assms
proof (induction cs arbitrary: m xs)
  case Nil
  then show ?case by simp
next
  case (Cons c cs)
  have s: "sorted_wrt (<) (map fst (bump (c_value c) m))"
    using Cons.prems(1) by (rule bump_sorted)
  have r: "\<forall>v. map_of (bump (c_value c) m) v
      = (if count_list (xs @ [c_value c]) v = 0 then None
         else Some (int (count_list (xs @ [c_value c]) v)))"
    using Cons.prems(2) by (simp add: bump_map_of [OF Cons.prems(1)])
  from Cons.IH [OF s r] show ?case by simp
qed

lemma rankCountsOf_sorted: "sorted_wrt (<) (map fst (rankCountsOf cs))"
  using rankCounts_fold [of "[]" "[]" cs] by (simp add: rankCountsOf_def)

lemma rankCountsOf_map_of:
  "map_of (rankCountsOf cs) v
     = (if count_list (map c_value cs) v = 0 then None
        else Some (int (count_list (map c_value cs) v)))"
  using rankCounts_fold [of "[]" "[]" cs] by (simp add: rankCountsOf_def)

lemma strict_sorted_distinct: "sorted_wrt (<) (xs :: int list) \<Longrightarrow> distinct xs"
  by (induction xs) auto

lemma in_rankCountsOf:
  "((v, n) \<in> set (rankCountsOf cs))
     = (n = int (count_list (map c_value cs) v) \<and> count_list (map c_value cs) v \<noteq> 0)"
proof -
  have "distinct (map fst (rankCountsOf cs))"
    using rankCountsOf_sorted by (rule strict_sorted_distinct)
  then have "((v, n) \<in> set (rankCountsOf cs)) = (map_of (rankCountsOf cs) v = Some n)"
    by simp
  then show ?thesis by (auto simp: rankCountsOf_map_of)
qed

lemma pairs_of_rankCounts:
  "set (map fst (filter (\<lambda>(v, count). count \<ge> 2) (rankCountsOf cs)))
     = {v. 2 \<le> count_list (map c_value cs) v}"
proof (intro set_eqI iffI)
  fix v assume "v \<in> set (map fst (filter (\<lambda>(v, count). count \<ge> 2) (rankCountsOf cs)))"
  then obtain n where "(v, n) \<in> set (rankCountsOf cs)" "2 \<le> n" by auto
  then show "v \<in> {v. 2 \<le> count_list (map c_value cs) v}"
    by (simp add: in_rankCountsOf)
next
  fix v assume "v \<in> {v. 2 \<le> count_list (map c_value cs) v}"
  then have c: "2 \<le> count_list (map c_value cs) v" by simp
  then have "(v, int (count_list (map c_value cs) v)) \<in> set (rankCountsOf cs)"
    by (simp add: in_rankCountsOf)
  with c show "v \<in> set (map fst (filter (\<lambda>(v, count). count \<ge> 2) (rankCountsOf cs)))"
    by force
qed

lemma count_list_insort_key:
  "count_list (map g (insort_key f x xs)) v = count_list (map g (x # xs)) v"
  by (induction xs) auto

lemma count_list_sort_key:
  "count_list (map g (sort_key f xs)) v = count_list (map g xs) v"
  by (induction xs) (simp_all add: count_list_insort_key)

lemma heldTwice_eq: "heldTwice cards = {v. 2 \<le> count_list (map c_value cards) v}"
proof -
  have "v \<in> set (map c_value cards)" if "2 \<le> count_list (map c_value cards) v" for v
  proof (rule ccontr)
    assume "v \<notin> set (map c_value cards)"
    with count_list_0_iff [of "map c_value cards" v]
    have "count_list (map c_value cards) v = 0" by blast
    with that show False by simp
  qed
  then show ?thesis unfolding heldTwice_def by auto
qed

lemma pairs_heldTwice:
  "set (sortDesc (map fst (filter (\<lambda>(v, count). count \<ge> 2)
          (rankCountsOf (sort_key (\<lambda>c. - c_value c) cards)))))
     = heldTwice cards"
  by (simp add: sortDesc_def pairs_of_rankCounts count_list_sort_key heldTwice_eq
      del: set_map set_filter)

lemma maxOf_Max: "ps \<noteq> [] \<Longrightarrow> maxOf ps = Max (set ps)"
  by (cases ps) (simp_all add: Max.set_eq_fold [symmetric])

lemma minOf_Min: "ps \<noteq> [] \<Longrightarrow> minOf ps = Min (set ps)"
  by (cases ps) (simp_all add: Min.set_eq_fold [symmetric])

section \<open>Two Pair and its kickers\<close>

lemma evaluate_handKKQQ2: "evaluateFiveCardHand handKKQQ2 = Inr twoPairKQ"
  by (simp add: evaluateFiveCardHand_def handRanking_def handKKQQ2_def card_def
      rankCountsOf_def sortDesc_def atIs_def twoPairKQ_def Let_def)

lemma evaluate_handKKJJA: "evaluateFiveCardHand handKKJJA = Inr twoPairKJ"
  by (simp add: evaluateFiveCardHand_def handRanking_def handKKJJA_def card_def
      rankCountsOf_def sortDesc_def atIs_def twoPairKJ_def Let_def)

lemma compare_KQ_KJ: "compareHands twoPairKQ twoPairKJ = -1"
  by (simp add: compareHands_def twoPairKQ_def twoPairKJ_def compareKickers.simps kickerAt_def)

lemma handRanking_two:
  assumes "h_rank (handRanking s f sh cs ps rc ks hc) = 2"
  shows "h_kickers (handRanking s f sh cs ps rc ks hc) = [maxOf ps, minOf ps]
         \<and> h_name (handRanking s f sh cs ps rc ks hc) = ''Two Pair''
         \<and> atIs cs 0 2"
  using assms by (simp add: handRanking_def Let_def split: if_splits)

lemma evaluate_shape:
  assumes "evaluateFiveCardHand cards = Inr e"
  shows "\<exists>s f sh ks hc.
           e = handRanking s f sh
                 (sortDesc (map snd (rankCountsOf (sort_key (\<lambda>c. - c_value c) cards))))
                 (sortDesc (map fst (filter (\<lambda>(v, count). count \<ge> 2)
                    (rankCountsOf (sort_key (\<lambda>c. - c_value c) cards)))))
                 (rankCountsOf (sort_key (\<lambda>c. - c_value c) cards)) ks hc"
proof (cases "sort_key (\<lambda>c. - c_value c) cards")
  case Nil
  with assms show ?thesis by (simp add: evaluateFiveCardHand_def Let_def)
next
  case (Cons firstCard rest)
  with assms show ?thesis
    unfolding evaluateFiveCardHand_def Let_def
    by (simp only: list.case sum.inject) (intro exI, erule sym)
qed

lemma rank_two_kickers:
  assumes "evaluateFiveCardHand cards = Inr e" "h_rank e = 2"
  shows "h_kickers e = [Max (heldTwice cards), Min (heldTwice cards)]
         \<and> length (h_kickers e) = 2 \<and> h_name e = ''Two Pair''"
proof -
  let ?rc = "rankCountsOf (sort_key (\<lambda>c. - c_value c) cards)"
  let ?cs = "sortDesc (map snd ?rc)"
  let ?ps = "sortDesc (map fst (filter (\<lambda>(v, count). count \<ge> 2) ?rc))"
  from evaluate_shape [OF assms(1)] obtain s f sh ks hc where
    e: "e = handRanking s f sh ?cs ?ps ?rc ks hc" by blast
  with assms(2) handRanking_two [of s f sh ?cs ?ps ?rc ks hc]
  have k: "h_kickers e = [maxOf ?ps, minOf ?ps]" and n: "h_name e = ''Two Pair''"
    and c: "atIs ?cs 0 2" by simp_all
  from c have "0 < length ?cs" "?cs ! 0 = 2" by (simp_all add: atIs_def)
  then have "2 \<in> set ?cs" by (metis nth_mem)
  then have "2 \<in> snd ` set ?rc" by (simp add: sortDesc_def)
  then obtain v where "(v, 2) \<in> set ?rc" by force
  then have "v \<in> set (map fst (filter (\<lambda>(v, count). count \<ge> 2) ?rc))" by force
  then have "v \<in> set ?ps" by (simp add: sortDesc_def del: set_map set_filter)
  then have ne: "?ps \<noteq> []" by auto
  from maxOf_Max [OF ne] minOf_Min [OF ne] pairs_heldTwice [of cards]
  have "maxOf ?ps = Max (heldTwice cards)" "minOf ?ps = Min (heldTwice cards)" by simp_all
  with k n show ?thesis by simp
qed

text \<open>
  Claim C7, as the code has it. A hand of category 2 always has exactly two kickers:
  the greatest and the least of the card values that at least two of its cards hold,
  that is the high pair and the low pair, and no entry for the fifth card. On the two
  hands of the scenario the evaluator returns Two Pair for both, with kickers (13, 12)
  and (13, 11), and the comparison is negative: the first hand, kings and queens, is
  the stronger, decided at the second kicker.
\<close>

theorem twoPair_kickers_are_the_pairs:
  "(\<forall>cards e. evaluateFiveCardHand cards = Inr e \<and> h_rank e = 2 \<longrightarrow>
       h_kickers e = [Max (heldTwice cards), Min (heldTwice cards)]
       \<and> length (h_kickers e) = 2 \<and> h_name e = ''Two Pair'')
   \<and> evaluateFiveCardHand handKKQQ2 = Inr twoPairKQ
   \<and> evaluateFiveCardHand handKKJJA = Inr twoPairKJ
   \<and> h_rank twoPairKQ = 2 \<and> h_rank twoPairKJ = 2
   \<and> h_kickers twoPairKQ = [13, 12] \<and> h_kickers twoPairKJ = [13, 11]
   \<and> compareHands twoPairKQ twoPairKJ < 0"
proof -
  have a: "\<forall>cards e. evaluateFiveCardHand cards = Inr e \<and> h_rank e = 2 \<longrightarrow>
       h_kickers e = [Max (heldTwice cards), Min (heldTwice cards)]
       \<and> length (h_kickers e) = 2 \<and> h_name e = ''Two Pair''"
    using rank_two_kickers by blast
  have d: "h_rank twoPairKQ = 2" "h_rank twoPairKJ = 2"
    "h_kickers twoPairKQ = [13, 12]" "h_kickers twoPairKJ = [13, 11]"
    by (simp_all add: twoPairKQ_def twoPairKJ_def)
  have e: "compareHands twoPairKQ twoPairKJ < 0"
    by (simp add: compare_KQ_KJ)
  show ?thesis
    by (intro conjI a d e evaluate_handKKQQ2 evaluate_handKKJJA)
qed

theorem twoPair_kickers_are_the_pairs_witness:
  "evaluateFiveCardHand handKKQQ2 = Inr twoPairKQ \<and> h_rank twoPairKQ = 2
   \<and> h_kickers twoPairKQ = [Max (heldTwice handKKQQ2), Min (heldTwice handKKQQ2)]
   \<and> heldTwice handKKQQ2 = {13, 12}
   \<and> length (h_kickers twoPairKQ) = 2"
proof -
  have h: "evaluateFiveCardHand handKKQQ2 = Inr twoPairKQ \<and> h_rank twoPairKQ = 2"
    by (simp add: evaluate_handKKQQ2 twoPairKQ_def)
  from twoPair_kickers_are_the_pairs
  have "evaluateFiveCardHand handKKQQ2 = Inr twoPairKQ \<and> h_rank twoPairKQ = 2 \<longrightarrow>
      h_kickers twoPairKQ = [Max (heldTwice handKKQQ2), Min (heldTwice handKKQQ2)]
      \<and> length (h_kickers twoPairKQ) = 2 \<and> h_name twoPairKQ = ''Two Pair''"
    by (elim conjE allE)
  with h have k: "h_kickers twoPairKQ = [Max (heldTwice handKKQQ2), Min (heldTwice handKKQQ2)]"
    "length (h_kickers twoPairKQ) = 2" by simp_all
  have s: "heldTwice handKKQQ2 = {13, 12}"
    by (simp add: heldTwice_def handKKQQ2_def card_def insert_commute)
  from h k s show ?thesis by (intro conjI) simp_all
qed

text \<open>
  Claim C7 as stated fails on the scenario: the kicker sequences are not
  (13, 12, 2) and (13, 11, 14), and the second hand does not win (the comparison is
  not positive).
\<close>

theorem twoPair_second_hand_wins_counterexample:
  "evaluateFiveCardHand handKKQQ2 = Inr twoPairKQ
   \<and> evaluateFiveCardHand handKKJJA = Inr twoPairKJ
   \<and> h_kickers twoPairKQ \<noteq> [13, 12, 2]
   \<and> h_kickers twoPairKJ \<noteq> [13, 11, 14]
   \<and> \<not> 0 < compareHands twoPairKQ twoPairKJ"
  using evaluate_handKKQQ2 evaluate_handKKJJA compare_KQ_KJ
  by (simp add: twoPairKQ_def twoPairKJ_def)

section \<open>Round closure\<close>

text \<open>
  Claim C5. With the contenders being the seats that are not folded, not all-in and
  not eliminated, \<^verbatim>\<open>isBettingComplete\<close> reports the round closed exactly when there
  is at most one contender, or every contender has acted and every contender's bet
  equals the current bet.
\<close>

theorem isBettingComplete_iff:
  "isBettingComplete game =
     (length (contenders game) \<le> 1
      \<or> (\<forall>p\<in>set (contenders game). hasActed p)
        \<and> (\<forall>p\<in>set (contenders game). bet p = currentBet game))"
  by (auto simp: isBettingComplete_def contenders_def Let_def list_all_iff)

theorem isBettingComplete_iff_witness:
  "\<not> isBettingComplete sixHanded \<and> length (contenders sixHanded) = 6
   \<and> \<not> (\<forall>p\<in>set (contenders sixHanded). hasActed p)"
proof -
  have "length (contenders sixHanded) = 6"
    by (simp add: contenders_def sixHanded_def tableOf_def seat_def)
  moreover have "\<not> (\<forall>p\<in>set (contenders sixHanded). hasActed p)"
    by (simp add: contenders_def sixHanded_def tableOf_def seat_def)
  ultimately show ?thesis using isBettingComplete_iff [of sixHanded] by simp
qed

section \<open>Circular scans\<close>

lemma nextActiveLoop_hit:
  "attempts < length ps \<Longrightarrow> canAct (ps ! i) \<Longrightarrow> nextActiveLoop ps i attempts = (Some i, attempts)"
  by (simp add: nextActiveLoop.simps [of ps i attempts] canAct_def Let_def)

lemma nextActiveLoop_miss:
  "attempts < length ps \<Longrightarrow> \<not> canAct (ps ! i) \<Longrightarrow>
     nextActiveLoop ps i attempts = nextActiveLoop ps ((i + 1) mod length ps) (attempts + 1)"
  by (auto simp add: nextActiveLoop.simps [of ps i attempts] canAct_def Let_def)

lemma nextActiveLoop_out:
  "\<not> attempts < length ps \<Longrightarrow> nextActiveLoop ps i attempts = (None, attempts)"
  by (simp add: nextActiveLoop.simps [of ps i attempts])

lemma next_in_range: "attempts < length ps \<Longrightarrow> (i + 1) mod length ps < length (ps::'a list)"
  by (cases ps) simp_all

lemma nextActiveLoop_attempts:
  "attempts \<le> length ps \<Longrightarrow> snd (nextActiveLoop ps i attempts) \<le> length ps"
proof (induction "length ps - attempts" arbitrary: i attempts)
  case 0
  then show ?case by (simp add: nextActiveLoop_out)
next
  case (Suc n)
  then have lt: "attempts < length ps" by simp
  show ?case
  proof (cases "canAct (ps ! i)")
    case True
    with lt show ?thesis by (simp add: nextActiveLoop_hit)
  next
    case False
    have "snd (nextActiveLoop ps ((i + 1) mod length ps) (attempts + 1)) \<le> length ps"
      using Suc lt by (intro Suc(1)) simp_all
    with lt False show ?thesis by (simp add: nextActiveLoop_miss)
  qed
qed

lemma nextActiveLoop_none:
  assumes "\<forall>p\<in>set ps. \<not> canAct p" "i < length ps"
  shows "fst (nextActiveLoop ps i attempts) = None"
  using assms(2)
proof (induction "length ps - attempts" arbitrary: i attempts)
  case 0
  then show ?case by (simp add: nextActiveLoop_out)
next
  case (Suc n)
  then have lt: "attempts < length ps" by simp
  from Suc(3) assms(1) have miss: "\<not> canAct (ps ! i)" by simp
  have "fst (nextActiveLoop ps ((i + 1) mod length ps) (attempts + 1)) = None"
    using Suc(2) lt next_in_range [OF lt, of i] by (intro Suc(1)) simp_all
  with lt miss show ?case by (simp add: nextActiveLoop_miss)
qed

lemma nextActiveLoop_found:
  assumes "fst (nextActiveLoop ps i attempts) = Some j" "i < length ps"
  shows "j < length ps \<and> canAct (ps ! j)"
  using assms
proof (induction "length ps - attempts" arbitrary: i attempts)
  case 0
  then show ?case by (simp add: nextActiveLoop_out)
next
  case (Suc n)
  then have lt: "attempts < length ps" by simp
  show ?case
  proof (cases "canAct (ps ! i)")
    case True
    with lt Suc(3,4) show ?thesis by (simp add: nextActiveLoop_hit)
  next
    case False
    with lt Suc(3) have "fst (nextActiveLoop ps ((i + 1) mod length ps) (attempts + 1)) = Some j"
      by (simp add: nextActiveLoop_miss)
    moreover have "(i + 1) mod length ps < length ps" using lt by (rule next_in_range)
    ultimately show ?thesis using Suc(2) lt by (intro Suc(1)) simp_all
  qed
qed

text \<open>A scan that finds nothing has looked at every seat from its start to the end of the cycle.\<close>

lemma nextActiveLoop_covers:
  assumes "fst (nextActiveLoop ps i attempts) = None" "k < length ps - attempts" "i < length ps"
  shows "\<not> canAct (ps ! ((i + k) mod length ps))"
  using assms
proof (induction "length ps - attempts" arbitrary: i attempts k)
  case 0
  then show ?case by simp
next
  case (Suc n)
  then have lt: "attempts < length ps" by simp
  have i: "\<not> canAct (ps ! i)"
  proof
    assume "canAct (ps ! i)"
    with lt Suc(3) show False by (simp add: nextActiveLoop_hit)
  qed
  with lt Suc(3) have rest: "fst (nextActiveLoop ps ((i + 1) mod length ps) (attempts + 1)) = None"
    by (simp add: nextActiveLoop_miss)
  show ?case
  proof (cases k)
    case 0
    with i Suc.prems(3) show ?thesis by simp
  next
    case (Suc k')
    with Suc.prems(2) have k': "k' < length ps - (attempts + 1)" by simp
    have "\<not> canAct (ps ! (((i + 1) mod length ps + k') mod length ps))"
      using Suc.hyps(2) lt rest k' next_in_range [OF lt, of i] by (intro Suc.hyps(1)) simp_all
    moreover have "((i + 1) mod length ps + k') mod length ps = (i + k) mod length ps"
      using Suc by (simp add: mod_add_left_eq)
    ultimately show ?thesis by simp
  qed
qed

lemma nextActiveLoop_complete:
  assumes "j < length ps" "canAct (ps ! j)" "i < length ps"
  shows "fst (nextActiveLoop ps i 0) \<noteq> None"
proof
  assume none: "fst (nextActiveLoop ps i 0) = None"
  let ?k = "(j + length ps - i) mod length ps"
  have "0 < length ps" using assms(1) by (cases ps) simp_all
  then have "?k < length ps - 0" by simp
  from nextActiveLoop_covers [OF none this assms(3)]
  have "\<not> canAct (ps ! ((i + ?k) mod length ps))" .
  moreover have "(i + ?k) mod length ps = j"
  proof -
    have "(i + ?k) mod length ps = (i + (j + length ps - i)) mod length ps"
      by (simp add: mod_add_right_eq)
    also have "i + (j + length ps - i) = j + length ps" using assms(3) by simp
    finally show ?thesis using assms(1) by simp
  qed
  ultimately show False using assms(2) by simp
qed

lemma nextDealerLoop_hit:
  "attempts < length ps \<Longrightarrow> \<not> eliminated (ps ! i) \<Longrightarrow> nextDealerLoop ps i attempts = (Some i, attempts)"
  by (simp add: nextDealerLoop.simps [of ps i attempts] Let_def)

lemma nextDealerLoop_miss:
  "attempts < length ps \<Longrightarrow> eliminated (ps ! i) \<Longrightarrow>
     nextDealerLoop ps i attempts = nextDealerLoop ps ((i + 1) mod length ps) (attempts + 1)"
  by (auto simp add: nextDealerLoop.simps [of ps i attempts] Let_def)

lemma nextDealerLoop_out:
  "\<not> attempts < length ps \<Longrightarrow> nextDealerLoop ps i attempts = (None, attempts)"
  by (simp add: nextDealerLoop.simps [of ps i attempts])

lemma nextDealerLoop_attempts:
  "attempts \<le> length ps \<Longrightarrow> snd (nextDealerLoop ps i attempts) \<le> length ps"
proof (induction "length ps - attempts" arbitrary: i attempts)
  case 0
  then show ?case by (simp add: nextDealerLoop_out)
next
  case (Suc n)
  then have lt: "attempts < length ps" by simp
  show ?case
  proof (cases "\<not> eliminated (ps ! i)")
    case True
    with lt show ?thesis by (simp add: nextDealerLoop_hit)
  next
    case False
    have "snd (nextDealerLoop ps ((i + 1) mod length ps) (attempts + 1)) \<le> length ps"
      using Suc lt by (intro Suc(1)) simp_all
    with lt False show ?thesis by (simp add: nextDealerLoop_miss)
  qed
qed

lemma nextDealerLoop_none:
  assumes "\<forall>p\<in>set ps. eliminated p" "i < length ps"
  shows "fst (nextDealerLoop ps i attempts) = None"
  using assms(2)
proof (induction "length ps - attempts" arbitrary: i attempts)
  case 0
  then show ?case by (simp add: nextDealerLoop_out)
next
  case (Suc n)
  then have lt: "attempts < length ps" by simp
  from Suc(3) assms(1) have miss: "eliminated (ps ! i)" by simp
  have "fst (nextDealerLoop ps ((i + 1) mod length ps) (attempts + 1)) = None"
    using Suc(2) lt next_in_range [OF lt, of i] by (intro Suc(1)) simp_all
  with lt miss show ?case by (simp add: nextDealerLoop_miss)
qed

lemma nextDealerLoop_found:
  assumes "fst (nextDealerLoop ps i attempts) = Some j" "i < length ps"
  shows "j < length ps \<and> \<not> eliminated (ps ! j)"
  using assms
proof (induction "length ps - attempts" arbitrary: i attempts)
  case 0
  then show ?case by (simp add: nextDealerLoop_out)
next
  case (Suc n)
  then have lt: "attempts < length ps" by simp
  show ?case
  proof (cases "\<not> eliminated (ps ! i)")
    case True
    with lt Suc(3,4) show ?thesis by (simp add: nextDealerLoop_hit)
  next
    case False
    with lt Suc(3) have "fst (nextDealerLoop ps ((i + 1) mod length ps) (attempts + 1)) = Some j"
      by (simp add: nextDealerLoop_miss)
    moreover have "(i + 1) mod length ps < length ps" using lt by (rule next_in_range)
    ultimately show ?thesis using Suc(2) lt by (intro Suc(1)) simp_all
  qed
qed

text \<open>A scan that finds nothing has looked at every seat from its start to the end of the cycle.\<close>

lemma nextDealerLoop_covers:
  assumes "fst (nextDealerLoop ps i attempts) = None" "k < length ps - attempts" "i < length ps"
  shows "eliminated (ps ! ((i + k) mod length ps))"
  using assms
proof (induction "length ps - attempts" arbitrary: i attempts k)
  case 0
  then show ?case by simp
next
  case (Suc n)
  then have lt: "attempts < length ps" by simp
  have i: "eliminated (ps ! i)"
  proof (rule ccontr)
    assume "\<not> eliminated (ps ! i)"
    with lt Suc(3) show False by (simp add: nextDealerLoop_hit)
  qed
  with lt Suc(3) have rest: "fst (nextDealerLoop ps ((i + 1) mod length ps) (attempts + 1)) = None"
    by (simp add: nextDealerLoop_miss)
  show ?case
  proof (cases k)
    case 0
    with i Suc.prems(3) show ?thesis by simp
  next
    case (Suc k')
    with Suc.prems(2) have k': "k' < length ps - (attempts + 1)" by simp
    have "eliminated (ps ! (((i + 1) mod length ps + k') mod length ps))"
      using Suc.hyps(2) lt rest k' next_in_range [OF lt, of i] by (intro Suc.hyps(1)) simp_all
    moreover have "((i + 1) mod length ps + k') mod length ps = (i + k) mod length ps"
      using Suc by (simp add: mod_add_left_eq)
    ultimately show ?thesis by simp
  qed
qed

lemma nextDealerLoop_complete:
  assumes "j < length ps" "\<not> eliminated (ps ! j)" "i < length ps"
  shows "fst (nextDealerLoop ps i 0) \<noteq> None"
proof
  assume none: "fst (nextDealerLoop ps i 0) = None"
  let ?k = "(j + length ps - i) mod length ps"
  have "0 < length ps" using assms(1) by (cases ps) simp_all
  then have "?k < length ps - 0" by simp
  from nextDealerLoop_covers [OF none this assms(3)]
  have "eliminated (ps ! ((i + ?k) mod length ps))" .
  moreover have "(i + ?k) mod length ps = j"
  proof -
    have "(i + ?k) mod length ps = (i + (j + length ps - i)) mod length ps"
      by (simp add: mod_add_right_eq)
    also have "i + (j + length ps - i) = j + length ps" using assms(3) by simp
    finally show ?thesis using assms(1) by simp
  qed
  ultimately show False using assms(2) by simp
qed

lemma set_nth_ex: "(\<exists>p\<in>set ps. P p) = (\<exists>j<length ps. P (ps ! j))"
  by (metis in_set_conv_nth)

lemma start_in_range: "ps \<noteq> [] \<Longrightarrow> (i + 1) mod length ps < length (ps::'a list)"
  by simp

lemma getNextActivePlayer_unchanged:
  assumes "\<forall>p\<in>set (players game). \<not> canAct p"
  shows "getNextActivePlayer game = activePlayerIndex game"
proof (cases "players game = []")
  case True
  then show ?thesis by (simp add: getNextActivePlayer_def nextActiveLoop_out)
next
  case False
  from nextActiveLoop_none [OF assms start_in_range [OF False]]
  show ?thesis by (simp add: getNextActivePlayer_def)
qed

lemma getNextActivePlayer_canAct:
  assumes "\<exists>p\<in>set (players game). canAct p"
  shows "getNextActivePlayer game < length (players game)
         \<and> canAct (players game ! getNextActivePlayer game)"
proof -
  from assms obtain j where j: "j < length (players game)" "canAct (players game ! j)"
    by (auto simp: set_nth_ex)
  then have ne: "players game \<noteq> []" by auto
  let ?i = "(activePlayerIndex game + 1) mod length (players game)"
  from nextActiveLoop_complete [OF j start_in_range [OF ne]]
  obtain r where r: "fst (nextActiveLoop (players game) ?i 0) = Some r" by auto
  from nextActiveLoop_found [OF r start_in_range [OF ne]] r
  show ?thesis by (simp add: getNextActivePlayer_def)
qed

lemma getNextDealerIndex_unchanged:
  assumes "\<forall>p\<in>set (players game). eliminated p"
  shows "getNextDealerIndex game = dealerIndex game"
proof (cases "players game = []")
  case True
  then show ?thesis by (simp add: getNextDealerIndex_def nextDealerLoop_out)
next
  case False
  from nextDealerLoop_none [OF assms start_in_range [OF False]]
  show ?thesis by (simp add: getNextDealerIndex_def)
qed

lemma getNextDealerIndex_alive:
  assumes "\<exists>p\<in>set (players game). \<not> eliminated p"
  shows "getNextDealerIndex game < length (players game)
         \<and> \<not> eliminated (players game ! getNextDealerIndex game)"
proof -
  from assms obtain j where j: "j < length (players game)" "\<not> eliminated (players game ! j)"
    by (auto simp: set_nth_ex)
  then have ne: "players game \<noteq> []" by auto
  let ?i = "(dealerIndex game + 1) mod length (players game)"
  from nextDealerLoop_complete [OF j start_in_range [OF ne]]
  obtain r where r: "fst (nextDealerLoop (players game) ?i 0) = Some r" by auto
  from nextDealerLoop_found [OF r start_in_range [OF ne]] r
  show ?thesis by (simp add: getNextDealerIndex_def)
qed

text \<open>
  Claim C9. Both circular scans are total functions, and on exit the counter
  \<^verbatim>\<open>attempts\<close> is at most the number of seats: at most one full cycle. When no seat
  qualifies (none that is not folded, not all-in and not eliminated for the turn; none
  that is not eliminated for the dealer) the index comes back unchanged; when some
  seat qualifies, the scan returns the index of a qualifying seat.
\<close>

theorem scans_bounded:
  "snd (nextActiveLoop (players game)
          ((activePlayerIndex game + 1) mod length (players game)) 0) \<le> length (players game)
   \<and> snd (nextDealerLoop (players game)
          ((dealerIndex game + 1) mod length (players game)) 0) \<le> length (players game)
   \<and> ((\<forall>p\<in>set (players game). \<not> canAct p) \<longrightarrow>
         getNextActivePlayer game = activePlayerIndex game)
   \<and> ((\<forall>p\<in>set (players game). eliminated p) \<longrightarrow>
         getNextDealerIndex game = dealerIndex game)
   \<and> ((\<exists>p\<in>set (players game). canAct p) \<longrightarrow>
         getNextActivePlayer game < length (players game)
         \<and> canAct (players game ! getNextActivePlayer game))
   \<and> ((\<exists>p\<in>set (players game). \<not> eliminated p) \<longrightarrow>
         getNextDealerIndex game < length (players game)
         \<and> \<not> eliminated (players game ! getNextDealerIndex game))"
  using nextActiveLoop_attempts [of 0 "players game"] nextDealerLoop_attempts [of 0 "players game"]
    getNextActivePlayer_unchanged [of game] getNextDealerIndex_unchanged [of game]
    getNextActivePlayer_canAct [of game] getNextDealerIndex_alive [of game]
  by blast

theorem scans_bounded_witness:
  "getNextActivePlayer allOut = 1 \<and> getNextDealerIndex allOut = 0
   \<and> getNextActivePlayer sixHanded < 6 \<and> getNextDealerIndex sixHanded < 6"
proof -
  have a: "\<forall>p\<in>set (players allOut). \<not> canAct p" "\<forall>p\<in>set (players allOut). eliminated p"
    by (simp_all add: allOut_def tableOf_def seat_def canAct_def)
  have b: "\<exists>p\<in>set (players sixHanded). canAct p" "\<exists>p\<in>set (players sixHanded). \<not> eliminated p"
    by (simp_all add: sixHanded_def tableOf_def seat_def canAct_def)
  have c: "activePlayerIndex allOut = 1" "dealerIndex allOut = 0" "length (players sixHanded) = 6"
    by (simp_all add: allOut_def sixHanded_def tableOf_def)
  from a b c scans_bounded [of allOut] scans_bounded [of sixHanded]
  show ?thesis by simp
qed

section \<open>Updates of the seat list\<close>

lemma length_modify [simp]: "length (modify i f ps) = length ps"
  by (simp add: modify_def)

lemma nth_modify_same [simp]: "i < length ps \<Longrightarrow> modify i f ps ! i = f (ps ! i)"
  by (simp add: modify_def)

lemma nth_modify_other [simp]: "j \<noteq> i \<Longrightarrow> modify i f ps ! j = ps ! j"
  by (simp add: modify_def)

lemma length_reopenRound [simp]: "length (reopenRound i ps) = length ps"
  by (simp add: reopenRound_def)

lemma nth_reopenRound:
  "j < length ps \<Longrightarrow>
     reopenRound i ps ! j =
       (if j \<noteq> i \<and> canAct (ps ! j) then (ps ! j)\<lparr>hasActed := False\<rparr> else ps ! j)"
  by (simp add: reopenRound_def canAct_def nth_enumerate_eq)

lemma findIndex_Some: "findIndex P xs = Some i \<Longrightarrow> i < length xs \<and> P (xs ! i)"
proof (induction xs arbitrary: i)
  case Nil
  then show ?case by simp
next
  case (Cons x xs)
  then show ?case by (cases "P x") auto
qed

section \<open>Raise\<close>

lemma applyRaise_contract:
  assumes "i < length (players g)" "currentBet g < a" "0 \<le> currentBet g"
  shows "raiseContract a i g (applyRaise (Some a) i g)"
proof -
  from assms have ok: "a \<noteq> 0 \<and> a > currentBet g" by simp
  let ?p = "players g ! i"
  let ?T = "min a (chips ?p + bet ?p)"
  have others: "\<forall>j<length (players g). j \<noteq> i \<longrightarrow>
      players (applyRaise (Some a) i g) ! j =
        (if canAct (players g ! j) then (players g ! j)\<lparr>hasActed := False\<rparr> else players g ! j)"
    using ok assms(1) by (simp add: applyRaise_def Let_def nth_reopenRound canAct_def)
  have self: "bet (players (applyRaise (Some a) i g) ! i) = ?T
      \<and> chips (players (applyRaise (Some a) i g) ! i) = chips ?p - (?T - bet ?p)
      \<and> hasActed (players (applyRaise (Some a) i g) ! i)"
    using ok assms(1) by (simp add: applyRaise_def Let_def nth_reopenRound)
  have rest: "length (players (applyRaise (Some a) i g)) = length (players g)
      \<and> currentBet (applyRaise (Some a) i g) = ?T"
    using ok by (simp add: applyRaise_def Let_def)
  from others self rest show ?thesis
    unfolding raiseContract_def Let_def by blast
qed

lemma raiseContract_cong:
  assumes "raiseContract a i g g1" "players g2 = players g1" "currentBet g2 = currentBet g1"
  shows "raiseContract a i g g2"
  using assms by (simp add: raiseContract_def)

lemma inHand_cong:
  assumes "length ps' = length ps"
    "\<forall>j<length ps. folded (ps' ! j) = folded (ps ! j) \<and> eliminated (ps' ! j) = eliminated (ps ! j)"
  shows "inHand ps' = inHand ps"
  using assms unfolding inHand_def by (auto intro: filter_cong)

lemma inHand_applyRaise: "inHand (players (applyRaise amount i g)) = inHand (players g)"
proof (cases "i < length (players g)")
  case True
  then show ?thesis
    by (intro inHand_cong)
      (auto simp: applyRaise_def Let_def nth_reopenRound nth_modify_same modify_def nth_list_update
        split: option.splits)
next
  case False
  then show ?thesis
    by (intro inHand_cong)
      (auto simp: applyRaise_def Let_def nth_reopenRound modify_def split: option.splits)
qed

lemma handlePlayerAction_raise:
  assumes "n \<noteq> []" "findIndex (\<lambda>p. p_name p = n) (players g) = Some i"
    "i = activePlayerIndex g"
  shows "\<exists>g'. handlePlayerAction n Raise amount g = Inr g'
          \<and> players g' = players (applyRaise amount i g)
          \<and> currentBet g' = currentBet (applyRaise amount i g)"
  using assms by (simp add: handlePlayerAction_def Let_def)

lemma executeAIAction_raise:
  assumes "activePlayerIndex g < length (players g)" "length (inHand (players g)) \<noteq> 1"
  shows "\<exists>g'. executeAIAction \<lparr>d_action = Raise, d_amount = amount\<rparr> g = Inr g'
          \<and> players g' = players (applyRaise amount (activePlayerIndex g) g)
          \<and> currentBet g' = currentBet (applyRaise amount (activePlayerIndex g) g)"
  using assms by (simp add: executeAIAction_def aiSwitch_def Let_def inHand_applyRaise)

text \<open>
  Claim C4. A raise by the active seat to an amount above the current bet satisfies
  the raise contract: through \<^verbatim>\<open>handlePlayerAction\<close> as a whole; through the
  \<^verbatim>\<open>switch\<close> of \<^verbatim>\<open>executeAIAction\<close>; and through \<^verbatim>\<open>executeAIAction\<close> as a whole
  whenever the raiser is not the only seat left in the hand (otherwise the early win
  follows the raise at once and pays the bets out).
\<close>

theorem raise_contract:
  assumes "i = activePlayerIndex g" "i < length (players g)" "currentBet g < a"
    "0 \<le> currentBet g"
  shows "(n \<noteq> [] \<and> findIndex (\<lambda>p. p_name p = n) (players g) = Some i \<longrightarrow>
            (\<exists>g'. handlePlayerAction n Raise (Some a) g = Inr g' \<and> raiseContract a i g g'))
         \<and> raiseContract a i g (aiSwitch \<lparr>d_action = Raise, d_amount = Some a\<rparr> g)
         \<and> (length (inHand (players g)) \<noteq> 1 \<longrightarrow>
            (\<exists>g'. executeAIAction \<lparr>d_action = Raise, d_amount = Some a\<rparr> g = Inr g'
                  \<and> raiseContract a i g g'))"
proof -
  note c = applyRaise_contract [OF assms(2,3,4)]
  have one: "n \<noteq> [] \<and> findIndex (\<lambda>p. p_name p = n) (players g) = Some i \<longrightarrow>
      (\<exists>g'. handlePlayerAction n Raise (Some a) g = Inr g' \<and> raiseContract a i g g')"
  proof
    assume h: "n \<noteq> [] \<and> findIndex (\<lambda>p. p_name p = n) (players g) = Some i"
    with handlePlayerAction_raise [of n g i "Some a"] assms(1)
    obtain g' where "handlePlayerAction n Raise (Some a) g = Inr g'"
      "players g' = players (applyRaise (Some a) i g)"
      "currentBet g' = currentBet (applyRaise (Some a) i g)" by auto
    with raiseContract_cong [OF c] show
      "\<exists>g'. handlePlayerAction n Raise (Some a) g = Inr g' \<and> raiseContract a i g g'" by blast
  qed
  have two: "raiseContract a i g (aiSwitch \<lparr>d_action = Raise, d_amount = Some a\<rparr> g)"
    using c assms(1) by (simp add: aiSwitch_def)
  have three: "length (inHand (players g)) \<noteq> 1 \<longrightarrow>
      (\<exists>g'. executeAIAction \<lparr>d_action = Raise, d_amount = Some a\<rparr> g = Inr g'
            \<and> raiseContract a i g g')"
  proof
    assume h: "length (inHand (players g)) \<noteq> 1"
    from executeAIAction_raise [OF _ h, of "Some a"] assms(1,2)
    obtain g' where "executeAIAction \<lparr>d_action = Raise, d_amount = Some a\<rparr> g = Inr g'"
      "players g' = players (applyRaise (Some a) i g)"
      "currentBet g' = currentBet (applyRaise (Some a) i g)" by auto
    with raiseContract_cong [OF c] show
      "\<exists>g'. executeAIAction \<lparr>d_action = Raise, d_amount = Some a\<rparr> g = Inr g'
            \<and> raiseContract a i g g'" by blast
  qed
  from one two three show ?thesis by blast
qed

lemma sixHanded_facts:
  "activePlayerIndex sixHanded = 4" "length (players sixHanded) = 6"
  "currentBet sixHanded = 20" "findIndex (\<lambda>p. p_name p = ''s4'') (players sixHanded) = Some 4"
  "length (inHand (players sixHanded)) = 6"
  by (simp_all add: sixHanded_def tableOf_def seat_def inHand_def)

theorem raise_contract_witness:
  "(\<exists>g'. handlePlayerAction ''s4'' Raise (Some 60) sixHanded = Inr g'
        \<and> raiseContract 60 4 sixHanded g')
   \<and> (\<exists>g'. executeAIAction \<lparr>d_action = Raise, d_amount = Some 60\<rparr> sixHanded = Inr g'
        \<and> raiseContract 60 4 sixHanded g' \<and> currentBet g' = 60
        \<and> bet (players g' ! 4) = 60 \<and> chips (players g' ! 4) = 940
        \<and> hasActed (players g' ! 4) \<and> \<not> hasActed (players g' ! 3))"
proof -
  have h: "4 = activePlayerIndex sixHanded" "4 < length (players sixHanded)"
    "currentBet sixHanded < 60" "0 \<le> currentBet sixHanded"
    by (simp_all add: sixHanded_facts)
  note t = raise_contract [OF h, of "''s4''"]
  from t sixHanded_facts have one: "\<exists>g'. handlePlayerAction ''s4'' Raise (Some 60) sixHanded = Inr g'
        \<and> raiseContract 60 4 sixHanded g'" by simp
  from t sixHanded_facts obtain g' where
    g': "executeAIAction \<lparr>d_action = Raise, d_amount = Some 60\<rparr> sixHanded = Inr g'"
      "raiseContract 60 4 sixHanded g'" by auto
  have p: "players sixHanded ! 4 = seat ''s4'' 1000 0"
    "players sixHanded ! 3 = (seat ''s3'' 980 20)\<lparr>hasActed := True\<rparr>"
    by (simp_all add: sixHanded_def tableOf_def)
  from g'(2) p sixHanded_facts have "currentBet g' = 60 \<and> bet (players g' ! 4) = 60
      \<and> chips (players g' ! 4) = 940 \<and> hasActed (players g' ! 4) \<and> \<not> hasActed (players g' ! 3)"
    by (simp add: raiseContract_def Let_def seat_def canAct_def)
  with g' one show ?thesis by blast
qed

section \<open>Chips on the table under an action\<close>




lemma nth_modify:
  "j < length ps \<Longrightarrow> modify i f ps ! j = (if j = i then f (ps ! j) else ps ! j)"
  by (simp add: modify_def nth_list_update)







lemma pot_apply [simp]:
  "pot (applyFold i g) = pot g" "pot (applyCall i g) = pot g"
  "pot (applyRaise amount i g) = pot g" "pot (applyAllin i g) = pot g"
  by (simp_all add: applyFold_def applyCall_def applyRaise_def applyAllin_def Let_def split: option.splits)


lemma tableTotal_flags [simp]:
  "tableTotal (g\<lparr>bettingComplete := b\<rparr>) = tableTotal g"
  "tableTotal (g\<lparr>activePlayerIndex := k\<rparr>) = tableTotal g"
  by (simp_all add: tableTotal_def)



section \<open>The early win of the policy path\<close>

lemma sum_list_map_update:
  "i < length ps \<Longrightarrow>
     sum_list (map f (ps[i := v])) = sum_list (map f ps) - f (ps ! i) + (f v :: int)"
proof (induction ps arbitrary: i)
  case Nil
  then show ?case by simp
next
  case (Cons p ps)
  then show ?case by (cases i) simp_all
qed

lemma sum_chips_credit:
  "i < length ps \<Longrightarrow>
     sum_list (map chips (modify i (\<lambda>p. p\<lparr>chips := chips p + x\<rparr>) ps))
       = sum_list (map chips ps) + x"
  by (simp add: modify_def sum_list_map_update)

lemma inHand_lt: "w \<in> set (inHand ps) \<Longrightarrow> w < length ps"
  by (simp add: inHand_def)

lemma tableTotal_split:
  "tableTotal g = sum_list (map chips (players g)) + sum_list (map bet (players g)) + pot g"
  by (simp add: tableTotal_def sum_list_addf)




section \<open>Phase advance\<close>

lemma collectBets_simps [simp]:
  "pot (collectBets g) = pot g + sum_list (map bet (players g))"
  "players (collectBets g) = map (\<lambda>player. player\<lparr>bet := 0, hasActed := False\<rparr>) (players g)"
  "communityCards (collectBets g) = communityCards g"
  "phase (collectBets g) = phase g"
  by (simp_all add: collectBets_def Let_def)

lemma sum_bets_cleared [simp]:
  "sum_list (map (\<lambda>p. bet (p\<lparr>bet := 0, hasActed := b\<rparr>)) ps) = 0"
  by (induction ps) simp_all

lemma stackTotal_collectBets: "stackTotal (collectBets g) = stackTotal g"
  by (simp add: stackTotal_def comp_def)


lemma tableTotal_stack_when_no_bets:
  "\<forall>p\<in>set (players g). bet p = 0 \<Longrightarrow> tableTotal g = stackTotal g + pot g"
proof -
  assume "\<forall>p\<in>set (players g). bet p = 0"
  then have "map (\<lambda>p. chips p + bet p) (players g) = map chips (players g)"
    by (intro map_cong) simp_all
  then have "sum_list (map (\<lambda>p. chips p + bet p) (players g)) = sum_list (map chips (players g))"
    by (rule arg_cong)
  then show ?thesis unfolding tableTotal_def stackTotal_def by linarith
qed





section \<open>Sorting the evaluated hands\<close>

lemma set_insertBy [simp]: "set (insertBy cmp x xs) = insert x (set xs)"
  by (induction xs) auto

lemma sortBy_Nil [simp]: "sortBy cmp [] = []"
  by (simp add: sortBy_def)

lemma sortBy_Cons [simp]: "sortBy cmp (x # xs) = insertBy cmp x (sortBy cmp xs)"
  by (simp add: sortBy_def)

lemma set_sortBy [simp]: "set (sortBy cmp xs) = set xs"
  by (induction xs) simp_all

lemma length_filter_insertBy:
  "length (filter P (insertBy cmp x xs)) = length (filter P (x # xs))"
  by (induction xs) auto

lemma length_filter_sortBy: "length (filter P (sortBy cmp xs)) = length (filter P xs)"
  by (induction xs) (simp_all add: length_filter_insertBy)

lemma distinct_map_insertBy:
  "distinct (map f (insertBy cmp x xs)) = distinct (map f (x # xs))"
  by (induction xs) auto

lemma distinct_map_sortBy: "distinct (map f (sortBy cmp xs)) = distinct (map f xs)"
  by (induction xs) (simp_all add: distinct_map_insertBy)

lemma sorted_insertBy:
  assumes "sorted_wrt (\<lambda>a b. compareHands (snd a) (snd b) \<le> 0) xs"
  shows "sorted_wrt (\<lambda>a b. compareHands (snd a) (snd b) \<le> 0)
           (insertBy (\<lambda>a b. compareHands (snd a) (snd b)) x xs)"
  using assms
proof (induction xs)
  case Nil
  then show ?case by simp
next
  case (Cons y ys)
  show ?case
  proof (cases "compareHands (snd x) (snd y) \<le> 0")
    case True
    have "\<forall>z\<in>set ys. compareHands (snd x) (snd z) \<le> 0"
      using Cons.prems True compareHands_le_trans by auto
    with True Cons.prems show ?thesis by simp
  next
    case False
    then have "compareHands (snd y) (snd x) \<le> 0"
      using compareHands_neg [of "snd y" "snd x"] by simp
    with False Cons show ?thesis by simp
  qed
qed

lemma sorted_sortBy:
  "sorted_wrt (\<lambda>a b. compareHands (snd a) (snd b) \<le> 0)
     (sortBy (\<lambda>a b. compareHands (snd a) (snd b)) xs)"
proof (induction xs)
  case Nil
  then show ?case by simp
next
  case (Cons x xs)
  from sorted_insertBy [OF Cons] show ?case by simp
qed

lemma evaluateAll_fst:
  "evaluateAll ps cc idxs = Inr evs \<Longrightarrow> map fst evs = idxs"
proof (induction idxs arbitrary: evs)
  case Nil
  then show ?case by simp
next
  case (Cons i rest)
  then show ?case by (auto split: sum.splits)
qed

lemma evaluateAll_hands:
  assumes "\<forall>i\<in>set idxs. hand (ps' ! i) = hand (ps ! i)"
  shows "evaluateAll ps' cc idxs = evaluateAll ps cc idxs"
  using assms by (induction idxs) (auto split: sum.splits)

lemma distinct_inHand: "distinct (inHand ps)"
  by (simp add: inHand_def)

section \<open>Showdown with a single winner\<close>





section \<open>The example tables, evaluated\<close>

lemmas example_defs = tableOf_def seat_def card_def

lemmas action_defs = handlePlayerAction_def executeAIAction_def aiSwitch_def applyFold_def
  applyCall_def applyRaise_def applyAllin_def modify_def reopenRound_def isBettingComplete_def
  getNextActivePlayer_def inHand_def earlyWin_def enumerate_eq_zip Let_def




lemma human_fold_headsUp:
  "handlePlayerAction ''hero'' Fold None headsUp =
     Inr (headsUp\<lparr>players := [(seat ''hero'' 990 10)\<lparr>folded := True, hasActed := True\<rparr>,
                               (seat ''villain'' 980 20)\<lparr>hasActed := True\<rparr>],
                  bettingComplete := True\<rparr>)"
  by (simp add: headsUp_def example_defs action_defs)

lemma policy_fold_headsUp:
  "executeAIAction \<lparr>d_action = Fold, d_amount = None\<rparr> headsUp =
     Inr (headsUp\<lparr>players := [(seat ''hero'' 990 0)\<lparr>folded := True, hasActed := True\<rparr>,
                               (seat ''villain'' 1010 0)\<lparr>hasActed := True\<rparr>],
                  winner := Some 1, pot := 30, phase := Showdown,
                  bettingComplete := True, currentBet := 0\<rparr>)"
  by (simp add: headsUp_def example_defs action_defs)

section \<open>Chip conservation\<close>




section \<open>A raise that is not above the current bet\<close>

text \<open>
  Claim C2 at a failing input. On the six-handed table the current bet is 20 and
  seat 4 is to act. A raise to 20 changes no seat and not the current bet, but the
  call is not rejected: it returns a table, on which the turn has passed to seat 5.
  The policy path does the same with a decision to raise to 20.
\<close>

theorem invalid_raise_passes_the_turn:
  "handlePlayerAction ''s4'' Raise (Some 20) sixHanded
     = Inr (sixHanded\<lparr>activePlayerIndex := 5\<rparr>)
   \<and> executeAIAction \<lparr>d_action = Raise, d_amount = Some 20\<rparr> sixHanded
     = Inr (sixHanded\<lparr>activePlayerIndex := 5\<rparr>)
   \<and> activePlayerIndex sixHanded = 4
   \<and> currentBet sixHanded = 20
   \<and> sixHanded\<lparr>activePlayerIndex := 5\<rparr> \<noteq> sixHanded"
proof -
  have "handlePlayerAction ''s4'' Raise (Some 20) sixHanded
      = Inr (sixHanded\<lparr>activePlayerIndex := 5\<rparr>)"
    by (simp add: sixHanded_def example_defs action_defs nextActiveLoop.simps)
  moreover have "executeAIAction \<lparr>d_action = Raise, d_amount = Some 20\<rparr> sixHanded
      = Inr (sixHanded\<lparr>activePlayerIndex := 5\<rparr>)"
    by (simp add: sixHanded_def example_defs action_defs nextActiveLoop.simps)
  moreover have "activePlayerIndex sixHanded = 4" "currentBet sixHanded = 20"
    by (simp_all add: sixHanded_def example_defs)
  moreover have "sixHanded\<lparr>activePlayerIndex := 5\<rparr> \<noteq> sixHanded"
  proof
    assume "sixHanded\<lparr>activePlayerIndex := 5\<rparr> = sixHanded"
    then have "activePlayerIndex (sixHanded\<lparr>activePlayerIndex := 5\<rparr>) = activePlayerIndex sixHanded"
      by simp
    then show False by (simp add: sixHanded_def example_defs)
  qed
  ultimately show ?thesis by (intro conjI)
qed

section \<open>Call\<close>

text \<open>
  What a call does to the seat list: the amount is the minimum of what is owed and
  the stack, it moves from the stack to the bet, and the seat has acted. The all-in
  flag is set when the amount equals the stack that is left after the debit.
\<close>

lemma applyCall_effect:
  assumes "i < length (players g)"
    and "amount = min (currentBet g - bet (players g ! i)) (chips (players g ! i))"
  shows "chips (players (applyCall i g) ! i) = chips (players g ! i) - amount"
    and "bet (players (applyCall i g) ! i) = bet (players g ! i) + amount"
    and "hasActed (players (applyCall i g) ! i)"
    and "allIn (players (applyCall i g) ! i)
           = (allIn (players g ! i) \<or> amount = chips (players g ! i) - amount)"
    and "\<forall>j. j \<noteq> i \<longrightarrow> players (applyCall i g) ! j = players g ! j"
  using assms by (simp_all add: applyCall_def Let_def modify_def)

text \<open>
  Claim C3 at a failing input. The hero has 20 chips and owes 20: the amount of the
  call, 20, is the whole stack. After the call, through either entry point, the stack
  is 0, the bet 20 and the seat has acted, but the all-in flag is still false.
\<close>

theorem call_of_whole_stack_not_all_in:
  "min (currentBet shortCall - bet (players shortCall ! 0)) (chips (players shortCall ! 0))
     = chips (players shortCall ! 0)
   \<and> handlePlayerAction ''hero'' Call None shortCall
       = Inr (shortCall\<lparr>players := [(seat ''hero'' 0 20)\<lparr>hasActed := True\<rparr>,
                                     (seat ''villain'' 980 20)\<lparr>hasActed := True\<rparr>],
                        bettingComplete := True\<rparr>)
   \<and> executeAIAction \<lparr>d_action = Call, d_amount = None\<rparr> shortCall
       = Inr (shortCall\<lparr>players := [(seat ''hero'' 0 20)\<lparr>hasActed := True\<rparr>,
                                     (seat ''villain'' 980 20)\<lparr>hasActed := True\<rparr>],
                        bettingComplete := True\<rparr>)
   \<and> \<not> allIn ((seat ''hero'' 0 20)\<lparr>hasActed := True\<rparr>)"
  by (simp add: shortCall_def example_defs action_defs)

section \<open>Early win\<close>

text \<open>
  Claim C6 at a failing input. Heads-up, the hero folds through
  \<^verbatim>\<open>handlePlayerAction\<close>: the round is closed with the villain alone in the hand,
  but the villain's stack is still 980, the bets are still live, the phase is still
  preflop and there is no winner. The same fold through \<^verbatim>\<open>executeAIAction\<close> pays the
  30 chips to the villain and moves to the showdown.
\<close>

theorem human_fold_no_early_win:
  "handlePlayerAction ''hero'' Fold None headsUp =
     Inr (headsUp\<lparr>players := [(seat ''hero'' 990 10)\<lparr>folded := True, hasActed := True\<rparr>,
                               (seat ''villain'' 980 20)\<lparr>hasActed := True\<rparr>],
                  bettingComplete := True\<rparr>)
   \<and> phase headsUp = Preflop \<and> winner headsUp = None
   \<and> executeAIAction \<lparr>d_action = Fold, d_amount = None\<rparr> headsUp =
     Inr (headsUp\<lparr>players := [(seat ''hero'' 990 0)\<lparr>folded := True, hasActed := True\<rparr>,
                               (seat ''villain'' 1010 0)\<lparr>hasActed := True\<rparr>],
                  winner := Some 1, pot := 30, phase := Showdown,
                  bettingComplete := True, currentBet := 0\<rparr>)"
  using human_fold_headsUp policy_fold_headsUp
  by (simp add: headsUp_def example_defs)

section \<open>Split pot\<close>

lemma length_sortBy [simp]: "length (sortBy cmp xs) = length xs"
  using length_filter_sortBy [of "\<lambda>_. True" cmp xs] by simp

lemma length_creditAll [simp]: "length (creditAll tied x ps) = length ps"
  unfolding creditAll_def by (induction tied arbitrary: ps) simp_all

lemma creditAll_Cons:
  "creditAll (t # ts) x ps = creditAll ts x (modify t (\<lambda>p. p\<lparr>chips := chips p + x\<rparr>) ps)"
  by (simp add: creditAll_def)

lemma creditAll_Nil [simp]: "creditAll [] x ps = ps"
  by (simp add: creditAll_def)

lemma creditAll_nth:
  assumes "distinct tied" "j < length ps"
  shows "creditAll tied x ps ! j =
           (if j \<in> set tied then (ps ! j)\<lparr>chips := chips (ps ! j) + x\<rparr> else ps ! j)"
  using assms
proof (induction tied arbitrary: ps)
  case Nil
  then show ?case by simp
next
  case (Cons t ts)
  from Cons.prems have d: "distinct ts" "t \<notin> set ts" by simp_all
  from Cons.prems have j: "j < length (modify t (\<lambda>p. p\<lparr>chips := chips p + x\<rparr>) ps)" by simp
  show ?case
    using Cons.IH [OF d(1) j] d(2) Cons.prems(2)
    by (auto simp: creditAll_Cons nth_modify)
qed

lemma creditAll_sum:
  assumes "\<forall>t\<in>set tied. t < length ps"
  shows "sum_list (map chips (creditAll tied x ps)) = sum_list (map chips ps) + int (length tied) * x"
  using assms
proof (induction tied arbitrary: ps)
  case Nil
  then show ?case by simp
next
  case (Cons t ts)
  then have t: "t < length ps" by simp
  from Cons.prems have "\<forall>u\<in>set ts. u < length (modify t (\<lambda>p. p\<lparr>chips := chips p + x\<rparr>) ps)"
    by simp
  from Cons.IH [OF this] sum_chips_credit [OF t, of x]
  show ?case by (simp add: creditAll_Cons algebra_simps)
qed

lemma inHand_collectBets: "inHand (players (collectBets g)) = inHand (players g)"
  by (rule inHand_cong) simp_all

lemma evaluateAll_collectBets:
  "evaluateAll (players (collectBets g)) cc (inHand (players g))
     = evaluateAll (players g) cc (inHand (players g))"
proof (rule evaluateAll_hands)
  show "\<forall>i\<in>set (inHand (players g)). hand (players (collectBets g) ! i) = hand (players g ! i)"
    by (auto dest: inHand_lt)
qed

text \<open>A hand that ties with a best hand is a best hand, and the best hands tie with one another.\<close>

lemma best_iff_ties_with_best:
  fixes evs :: "(nat \<times> HandEval) list"
  assumes win: "\<forall>b\<in>set evs. compareHands (snd win) (snd b) \<le> 0"
    and "win \<in> set evs" "a \<in> set evs"
  shows "(compareHands (snd a) (snd win) = 0)
           = (\<forall>b\<in>set evs. compareHands (snd a) (snd b) \<le> 0)"
proof
  assume tie: "compareHands (snd a) (snd win) = 0"
  show "\<forall>b\<in>set evs. compareHands (snd a) (snd b) \<le> 0"
  proof
    fix b assume "b \<in> set evs"
    with win have "compareHands (snd win) (snd b) \<le> 0" by simp
    with compareHands_zero_cong(1,3) [OF tie, of "snd b"]
    show "compareHands (snd a) (snd b) \<le> 0" by linarith
  qed
next
  assume best: "\<forall>b\<in>set evs. compareHands (snd a) (snd b) \<le> 0"
  with assms(2) have "compareHands (snd a) (snd win) \<le> 0" by simp
  moreover have "compareHands (snd a) (snd win) = - compareHands (snd win) (snd a)"
    by (rule compareHands_neg)
  moreover have "compareHands (snd win) (snd a) \<le> 0"
    using win assms(3) by simp
  ultimately show "compareHands (snd a) (snd win) = 0" by linarith
qed

lemma riverCase_split:
  assumes evs: "evaluateAll (players ng) (communityCards ng) (inHand (players ng)) = Inr evs"
    and two: "2 \<le> length (bestHands evs)"
  shows "\<exists>tied. riverCase ng =
                  Inr (ng\<lparr>phase := Showdown,
                          players := creditAll tied (pot ng div int (length tied)) (players ng),
                          pot := 0, winner := None, bettingComplete := True\<rparr>)
               \<and> distinct tied
               \<and> set tied = fst ` set (bestHands evs)
               \<and> length tied = length (bestHands evs)"
proof -
  let ?c = "\<lambda>a b :: nat \<times> HandEval. compareHands (snd a) (snd b)"
  let ?best = "\<lambda>a. \<forall>b\<in>set evs. compareHands (snd a) (snd b) \<le> 0"
  let ?s = "sortBy ?c evs"
  have bh: "bestHands evs = filter ?best evs"
    by (simp add: bestHands_def list_all_iff)
  have "length (bestHands evs) \<le> length evs" unfolding bh by (rule length_filter_le)
  with two have len: "2 \<le> length evs" by simp
  from evaluateAll_fst [OF evs] have fst_evs: "map fst evs = inHand (players ng)" .
  then have "length (inHand (players ng)) = length evs" by (metis length_map)
  with len have not_one: "length (inHand (players ng)) \<noteq> 1" by simp
  from len have "2 \<le> length ?s" by simp
  then obtain win second rest where s: "?s = win # second # rest"
    by (cases ?s; cases "tl ?s") auto
  have srt: "sorted_wrt (\<lambda>a b. ?c a b \<le> 0) (win # second # rest)"
    using sorted_sortBy [of evs] s by simp
  have set_s: "set evs = set (win # second # rest)"
    using set_sortBy [of ?c evs] s by simp
  have win_in: "win \<in> set evs" and second_in: "second \<in> set evs"
    using set_s by simp_all
  have win_best: "?best win"
  proof
    fix b assume "b \<in> set evs"
    with set_s have "b = win \<or> b \<in> set (second # rest)" by auto
    then show "compareHands (snd win) (snd b) \<le> 0"
      using srt by (auto simp: compareHands_refl)
  qed
  have same: "filter (\<lambda>h. ?c h win = 0) ?s = filter ?best ?s"
  proof (rule filter_cong [OF refl])
    fix a assume "a \<in> set ?s"
    then have "a \<in> set evs" by simp
    from best_iff_ties_with_best [OF win_best win_in this]
    show "(?c a win = 0) = ?best a" .
  qed
  have len_t: "length (filter ?best ?s) = length (bestHands evs)"
    unfolding bh by (rule length_filter_sortBy)
  have second_best: "?best second"
  proof (rule ccontr)
    assume ns: "\<not> ?best second"
    from len_t two s win_best ns have "1 \<le> length (filter ?best rest)" by simp
    then have "filter ?best rest \<noteq> []" by auto
    then obtain m where m: "m \<in> set rest" "?best m"
      by (metis (mono_tags, lifting) filter_False)
    from srt m(1) have sm: "compareHands (snd second) (snd m) \<le> 0" by auto
    have "?best second"
    proof
      fix b assume "b \<in> set evs"
      with m(2) have "compareHands (snd m) (snd b) \<le> 0" by simp
      with sm show "compareHands (snd second) (snd b) \<le> 0" by (rule compareHands_le_trans)
    qed
    with ns show False by simp
  qed
  from best_iff_ties_with_best [OF win_best win_in second_in] second_best
  have "compareHands (snd second) (snd win) = 0" by simp
  with compareHands_neg [of "snd win" "snd second"]
  have tie: "compareHands (snd win) (snd second) = 0" by simp
  let ?tied = "map fst (filter (\<lambda>h. ?c h win = 0) ?s)"
  have river: "riverCase ng =
      Inr (ng\<lparr>phase := Showdown,
              players := creditAll ?tied (pot ng div int (length ?tied)) (players ng),
              pot := 0, winner := None, bettingComplete := True\<rparr>)"
    using not_one evs tie
    by (simp add: riverCase_def Let_def s [symmetric]) (simp add: s)
  have "distinct (map fst ?s)"
    using fst_evs distinct_inHand [of "players ng"] by (simp add: distinct_map_sortBy)
  then have dist: "distinct ?tied" by (rule distinct_map_filter)
  have set_t: "set ?tied = fst ` set (bestHands evs)"
    unfolding same bh by simp
  have len_tied: "length ?tied = length (bestHands evs)"
    unfolding same using len_t by simp
  from river dist set_t len_tied show ?thesis by blast
qed

text \<open>
  Claim C10. At the river, with the round closed, when the hands of the seats still
  in the hand evaluate without error and \<open>k \<ge> 2\<close> of them are tied for the best
  hand, over a pot of \<open>P\<close> chips (the pot with the last live bets moved in):
  \<^verbatim>\<open>advancePhase\<close> returns; each tied seat's stack grows by \<open>P div k\<close> and no other
  stack changes; the pot is 0 and no bet is live; and the chips on the table are
  fewer than before by \<open>P mod k\<close>.
\<close>

theorem split_pot_remainder:
  assumes "phase g = River" "bettingComplete g"
    and "evaluateAll (players g) (communityCards g) (inHand (players g)) = Inr evs"
    and "2 \<le> length (bestHands evs)"
  shows "\<exists>g'. advancePhase g = Some (Inr g')
           \<and> pot g' = 0
           \<and> length (players g') = length (players g)
           \<and> (\<forall>j<length (players g).
                 chips (players g' ! j) =
                   chips (players g ! j)
                   + (if j \<in> fst ` set (bestHands evs)
                      then (pot g + sum_list (map bet (players g)))
                             div int (length (bestHands evs))
                      else 0))
           \<and> (\<forall>p\<in>set (players g'). bet p = 0)
           \<and> tableTotal g' =
               tableTotal g
               - (pot g + sum_list (map bet (players g))) mod int (length (bestHands evs))"
proof -
  let ?ng = "collectBets g"
  let ?P = "pot g + sum_list (map bet (players g))"
  let ?k = "length (bestHands evs)"
  have evs': "evaluateAll (players ?ng) (communityCards ?ng) (inHand (players ?ng)) = Inr evs"
  proof -
    have "evaluateAll (players ?ng) (communityCards ?ng) (inHand (players ?ng))
        = evaluateAll (players ?ng) (communityCards g) (inHand (players g))"
      by (simp only: inHand_collectBets collectBets_simps(3))
    also have "\<dots> = evaluateAll (players g) (communityCards g) (inHand (players g))"
      by (rule evaluateAll_collectBets)
    finally show ?thesis using assms(3) by simp
  qed
  from riverCase_split [OF evs' assms(4)] obtain tied where
    river: "riverCase ?ng =
      Inr (?ng\<lparr>phase := Showdown,
               players := creditAll tied (pot ?ng div int (length tied)) (players ?ng),
               pot := 0, winner := None, bettingComplete := True\<rparr>)"
    and dist: "distinct tied"
    and set_t: "set tied = fst ` set (bestHands evs)"
    and len_t: "length tied = ?k" by blast
  let ?amt = "?P div int ?k"
  let ?g' = "?ng\<lparr>phase := Showdown, players := creditAll tied ?amt (players ?ng),
                  pot := 0, winner := None, bettingComplete := True\<rparr>"
  have adv: "advancePhase g = Some (Inr ?g')"
    using assms(1,2) river len_t by (simp add: advancePhase_def phaseSwitch_def)
  have ps: "players ?g' = creditAll tied ?amt (players ?ng)" by simp
  have len: "length (players ?g') = length (players g)" by simp
  have nth: "players ?g' ! j =
      (if j \<in> set tied
       then (players ?ng ! j)\<lparr>chips := chips (players ?ng ! j) + ?amt\<rparr>
       else players ?ng ! j)" if "j < length (players g)" for j
    using that creditAll_nth [OF dist, of j "players ?ng" ?amt] by simp
  have chips_j: "\<forall>j<length (players g).
      chips (players ?g' ! j) =
        chips (players g ! j) + (if j \<in> fst ` set (bestHands evs) then ?amt else 0)"
    using nth set_t by simp
  have bets: "\<forall>p\<in>set (players ?g'). bet p = 0"
  proof
    fix p assume "p \<in> set (players ?g')"
    then obtain j where j: "j < length (players ?g')" "p = players ?g' ! j"
      by (auto simp: in_set_conv_nth)
    with len have "j < length (players g)" by simp
    from nth [OF this] j(2) this show "bet p = 0" by simp
  qed
  have in_range: "\<forall>t\<in>set tied. t < length (players ?ng)"
  proof
    fix t assume "t \<in> set tied"
    with set_t have "t \<in> fst ` set (bestHands evs)" by simp
    then have "t \<in> set (map fst evs)" by (auto simp: bestHands_def)
    with evaluateAll_fst [OF assms(3)] have "t \<in> set (inHand (players g))" by simp
    then have "t < length (players g)" by (rule inHand_lt)
    then show "t < length (players ?ng)" by simp
  qed
  have "stackTotal ?g' = stackTotal ?ng + int ?k * ?amt"
    using creditAll_sum [OF in_range, of ?amt] len_t by (simp add: stackTotal_def)
  then have st: "stackTotal ?g' = stackTotal g + int ?k * ?amt"
    by (simp add: stackTotal_collectBets)
  have "tableTotal ?g' = stackTotal ?g' + pot ?g'"
    using bets by (rule tableTotal_stack_when_no_bets)
  with st have t': "tableTotal ?g' = stackTotal g + int ?k * ?amt" by simp
  have t: "tableTotal g = stackTotal g + ?P"
    by (simp add: tableTotal_split stackTotal_def)
  have "int ?k * ?amt + ?P mod int ?k = ?P" by simp
  with t t' have total: "tableTotal ?g' = tableTotal g - ?P mod int ?k" by linarith
  have "pot ?g' = 0" by simp
  with adv len chips_j bets total show ?thesis by blast
qed

lemma evaluate_riverTie:
  "evaluateAll (players riverTie) (communityCards riverTie) (inHand (players riverTie))
     = Inr [(0, royalFlush), (1, royalFlush)]"
  by code_simp

theorem split_pot_remainder_witness:
  "\<exists>g'. advancePhase riverTie = Some (Inr g') \<and> pot g' = 0
      \<and> chips (players g' ! 0) = 992 \<and> chips (players g' ! 1) = 992
      \<and> tableTotal riverTie = 1985 \<and> tableTotal g' = 1984"
proof -
  have h: "phase riverTie = River" "bettingComplete riverTie"
    by (simp_all add: riverTie_def example_defs)
  have b: "bestHands [(0, royalFlush), (1, royalFlush)] = [(0, royalFlush), (1, royalFlush)]"
    by (simp add: bestHands_def compareHands_refl)
  then have k: "2 \<le> length (bestHands [(0::nat, royalFlush), (1, royalFlush)])" by simp
  have v: "pot riverTie + sum_list (map bet (players riverTie)) = 25"
    "length (players riverTie) = 2" "chips (players riverTie ! 0) = 980"
    "chips (players riverTie ! 1) = 980" "tableTotal riverTie = 1985"
    by (simp_all add: riverTie_def example_defs tableTotal_def)
  from split_pot_remainder [OF h evaluate_riverTie k] obtain g' where
    "advancePhase riverTie = Some (Inr g')" "pot g' = 0"
    "\<forall>j<length (players riverTie).
        chips (players g' ! j) =
          chips (players riverTie ! j)
          + (if j \<in> fst ` set (bestHands [(0, royalFlush), (1, royalFlush)])
             then (pot riverTie + sum_list (map bet (players riverTie)))
                    div int (length (bestHands [(0::nat, royalFlush), (1, royalFlush)]))
             else 0)"
    "tableTotal g' =
       tableTotal riverTie
       - (pot riverTie + sum_list (map bet (players riverTie)))
           mod int (length (bestHands [(0::nat, royalFlush), (1, royalFlush)]))"
    by blast
  with b v show ?thesis by (intro exI [of _ g']) simp
qed

end
